theory Spec2Isabelle
  imports Main "HOL-Library.Multiset"
begin

section \<open>The JavaScript Map used as worklist\<close>

text \<open>
  \<^verbatim>\<open>index.js\<close> keeps its worklist in a JavaScript \<^verbatim>\<open>Map\<close> and iterates over it with
  \<^verbatim>\<open>for (const pair of queue)\<close> while deleting from it and adding to it. What such a loop
  visits is fixed by the language: a Map is a list of entries in insertion order,
  \<^verbatim>\<open>delete\<close> empties the entry's slot without moving the others, \<^verbatim>\<open>set\<close> overwrites the
  value of an existing key in place and appends a slot for a new key, and an iterator is an
  index into that list which skips emptied slots and sees every slot appended before it
  reaches the end. The model is that list of slots; \<open>None\<close> is an emptied slot.
\<close>

type_synonym 'v jsmap = "(string \<times> 'v) option list"

fun map_has :: "'v jsmap \<Rightarrow> string \<Rightarrow> bool" where
  "map_has [] k = False"
| "map_has (None # m) k = map_has m k"
| "map_has (Some (k', v') # m) k = (k' = k \<or> map_has m k)"

fun map_get :: "'v jsmap \<Rightarrow> string \<Rightarrow> 'v option" where
  "map_get [] k = None"
| "map_get (None # m) k = map_get m k"
| "map_get (Some (k', v') # m) k = (if k' = k then Some v' else map_get m k)"

fun map_set :: "'v jsmap \<Rightarrow> string \<Rightarrow> 'v \<Rightarrow> 'v jsmap" where
  "map_set [] k v = [Some (k, v)]"
| "map_set (None # m) k v = None # map_set m k v"
| "map_set (Some (k', v') # m) k v =
     (if k' = k then Some (k', v) # m else Some (k', v') # map_set m k v)"

fun map_delete :: "'v jsmap \<Rightarrow> string \<Rightarrow> 'v jsmap" where
  "map_delete [] k = []"
| "map_delete (None # m) k = None # map_delete m k"
| "map_delete (Some (k', v') # m) k =
     (if k' = k then None # m else Some (k', v') # map_delete m k)"

definition map_size :: "'v jsmap \<Rightarrow> nat" where
  "map_size m = length (filter (\<lambda>e. e \<noteq> None) m)"

text \<open>The live entries in insertion order, what \<^verbatim>\<open>[...m]\<close> evaluates to.\<close>

definition map_entries :: "'v jsmap \<Rightarrow> (string \<times> 'v) list" where
  "map_entries m = List.map_filter id m"

section \<open>Configuration and external collaborators\<close>

text \<open>
  One entry of \<^verbatim>\<open>json.Root.Dependencies\<close>: \<^verbatim>\<open>dep.ModuleName\<close> and \<^verbatim>\<open>dep.Filepath\<close>, the
  latter a string or \<^verbatim>\<open>null\<close> (\<open>None\<close>).
\<close>

record dep =
  ModuleName :: string
  Filepath :: "string option"

text \<open>
  The constants at the head of the script and the library calls it makes. The file system
  is a value of type \<open>'fs\<close> threaded through the run. \<open>execSync\<close> stands for running
  \<^verbatim>\<open>DEPENDENCIES_PATH -json -depth 1 -chain targetPath\<close>, parsing the output and reading
  \<^verbatim>\<open>json.Root.Dependencies\<close>; it reads the file system, and \<open>None\<close> is any exception on
  the way. \<open>readdirSync\<close> and \<open>copyFileSync\<close> are those of \<^verbatim>\<open>fs\<close>, \<open>None\<close> again an
  exception; \<open>path_join\<close> and \<open>path_dirname\<close> are those of \<^verbatim>\<open>path\<close>.
\<close>

record 'fs env =
  EXE_PATH :: string
  SEARCH_DIRS :: "string list"
  INCLUDE_PATTERN :: "string \<Rightarrow> bool"
  execSync :: "'fs \<Rightarrow> string \<Rightarrow> dep list option"
  readdirSync :: "'fs \<Rightarrow> string \<Rightarrow> string list option"
  copyFileSync :: "'fs \<Rightarrow> string \<Rightarrow> string \<Rightarrow> 'fs option"
  path_join :: "string \<Rightarrow> string \<Rightarrow> string"
  path_dirname :: "string \<Rightarrow> string"

definition EXE_DIR_PATH :: "'fs env \<Rightarrow> string" where
  "EXE_DIR_PATH env = path_dirname env (EXE_PATH env)"

text \<open>The values the script is shipped with: \<^verbatim>\<open>/^vtk/\<close> and the two path constants.\<close>

definition vtk_pattern :: "string \<Rightarrow> bool" where
  "vtk_pattern moduleName = (take 3 moduleName = ''vtk'')"

definition shipped_EXE_PATH :: string where
  "shipped_EXE_PATH = ''./QtVtk1.exe''"

definition shipped_SEARCH_DIRS :: "string list" where
  "shipped_SEARCH_DIRS = [''D:/sdk/vtk-9.3.0.rc1-install/bin'']"

section \<open>Effects and errors\<close>

datatype line = Copying string | CostTime int

datatype event =
    Exec string
  | ReadDir string
  | CopyFile string string
  | ConsoleLog line

datatype error =
    CanNotFind string
  | ExecError string
  | ReaddirError string
  | CopyError string string

text \<open>
  The state of a run: the worklist, the file system, and the calls made so far to the
  outside (child processes, directory listings, copies, console lines), oldest first.
\<close>

record 'fs state =
  queue :: "string option jsmap"
  fs :: 'fs
  trace :: "event list"

text \<open>
  JavaScript's \<^verbatim>\<open>if (filePath)\<close> as a predicate: \<^verbatim>\<open>null\<close> and the empty string are both
  falsy, every other string is truthy. \<open>populate\<close> below makes this distinction by cases.
\<close>

fun truthy :: "string option \<Rightarrow> bool" where
  "truthy None = False"
| "truthy (Some s) = (s \<noteq> [])"

section \<open>scan\<close>

text \<open>The body of \<^verbatim>\<open>for (const dep of json.Root.Dependencies)\<close>, and the loop.\<close>

definition keep :: "(string \<Rightarrow> bool) \<Rightarrow> string option jsmap \<Rightarrow> dep \<Rightarrow> string option jsmap" where
  "keep pat result dep =
     (let moduleName = ModuleName dep; filePath = Filepath dep in
      if pat moduleName then map_set result moduleName filePath else result)"

definition scan_result :: "(string \<Rightarrow> bool) \<Rightarrow> dep list \<Rightarrow> string option jsmap" where
  "scan_result pat deps = foldl (keep pat) [] deps"

definition scan ::
  "'fs env \<Rightarrow> string \<Rightarrow> 'fs state \<Rightarrow> (error \<times> 'fs state) + (string option jsmap \<times> 'fs state)" where
  "scan env targetPath st =
     (let st' = st\<lparr>trace := trace st @ [Exec targetPath]\<rparr> in
      case execSync env (fs st) targetPath of
        None \<Rightarrow> Inl (ExecError targetPath, st')
      | Some deps \<Rightarrow> Inr (scan_result (INCLUDE_PATTERN env) deps, st'))"

section \<open>The body of the resolution loop\<close>

text \<open>\<^verbatim>\<open>for (const searchDir of SEARCH_DIRS)\<close>, with its \<^verbatim>\<open>break\<close> on the first hit.\<close>

fun search ::
  "'fs env \<Rightarrow> string \<Rightarrow> string list \<Rightarrow> 'fs state
     \<Rightarrow> (error \<times> 'fs state) + ((string \<times> string) option \<times> 'fs state)" where
  "search env moduleName [] st = Inr (None, st)"
| "search env moduleName (searchDir # rest) st =
     (let st' = st\<lparr>trace := trace st @ [ReadDir searchDir]\<rparr> in
      case readdirSync env (fs st) searchDir of
        None \<Rightarrow> Inl (ReaddirError searchDir, st')
      | Some files \<Rightarrow>
          (case List.find (\<lambda>f. f = moduleName) files of
             None \<Rightarrow> search env moduleName rest st'
           | Some file \<Rightarrow>
               if file \<noteq> [] then Inr (Some (file, searchDir), st')
               else search env moduleName rest st'))"

text \<open>The \<^verbatim>\<open>else\<close> branch of \<^verbatim>\<open>if (filePath)\<close>: search, copy, or throw.\<close>

definition copy_missing ::
  "'fs env \<Rightarrow> string \<Rightarrow> 'fs state \<Rightarrow> (error \<times> 'fs state) + (string \<times> 'fs state)" where
  "copy_missing env moduleName st =
     (case search env moduleName (SEARCH_DIRS env) st of
        Inl e \<Rightarrow> Inl e
      | Inr (None, st1) \<Rightarrow> Inl (CanNotFind moduleName, st1)
      | Inr (Some (foundFileName, foundDir), st1) \<Rightarrow>
          (let src = path_join env foundDir foundFileName;
               dest = path_join env (EXE_DIR_PATH env) moduleName;
               st2 = st1\<lparr>trace := trace st1 @ [ConsoleLog (Copying foundFileName), CopyFile src dest]\<rparr>
           in case copyFileSync env (fs st1) src dest of
                None \<Rightarrow> Inl (CopyError src dest, st2)
              | Some fs' \<Rightarrow>
                  Inr (dest, st2\<lparr>fs := fs', queue := map_delete (queue st2) moduleName\<rparr>)))"

text \<open>Lines 87 to 115: the path the pair is rescanned under, \<^verbatim>\<open>populateFilePath\<close>.\<close>

definition populate ::
  "'fs env \<Rightarrow> string \<Rightarrow> string option \<Rightarrow> 'fs state \<Rightarrow> (error \<times> 'fs state) + (string \<times> 'fs state)" where
  "populate env moduleName filePath st =
     (case filePath of
        None \<Rightarrow> copy_missing env moduleName st
      | Some p \<Rightarrow>
          if p \<noteq> [] then Inr (p, st\<lparr>queue := map_delete (queue st) moduleName\<rparr>)
          else copy_missing env moduleName st)"

text \<open>
  \<^verbatim>\<open>for (const childPair of children)\<close>: a child is added unless the worklist has it.
  \<open>children\<close> is not touched while it is iterated, so the loop is a fold over its slots.
\<close>

definition offer ::
  "string option jsmap \<Rightarrow> (string \<times> string option) option \<Rightarrow> string option jsmap" where
  "offer q childPair =
     (case childPair of
        None \<Rightarrow> q
      | Some (childModuleName, childFilePath) \<Rightarrow>
          if map_has q childModuleName then q
          else map_set q childModuleName childFilePath)"

definition enqueue :: "string option jsmap \<Rightarrow> string option jsmap \<Rightarrow> string option jsmap" where
  "enqueue q children = foldl offer q children"

definition process_pair ::
  "'fs env \<Rightarrow> string \<Rightarrow> string option \<Rightarrow> 'fs state \<Rightarrow> (error \<times> 'fs state) + 'fs state" where
  "process_pair env moduleName filePath st =
     (case populate env moduleName filePath st of
        Inl e \<Rightarrow> Inl e
      | Inr (populateFilePath, st1) \<Rightarrow>
          (case scan env populateFilePath st1 of
             Inl e \<Rightarrow> Inl e
           | Inr (children, st2) \<Rightarrow> Inr (st2\<lparr>queue := enqueue (queue st2) children\<rparr>)))"

section \<open>The two loops and the script\<close>

text \<open>
  \<^verbatim>\<open>for (const pair of queue)\<close> from iterator position \<open>index\<close>. The iterator reads the
  worklist as it is now, so the bound is the current number of slots. \<open>None\<close> as result
  is a loop that never ends; \<open>Some (Inl (e, st))\<close> is the exception \<open>e\<close> thrown in state
  \<open>st\<close>.
\<close>

partial_function (option) for_loop ::
  "'fs env \<Rightarrow> nat \<Rightarrow> 'fs state \<Rightarrow> ((error \<times> 'fs state) + 'fs state) option" where
  "for_loop env index st =
     (if index < length (queue st) then
        (case queue st ! index of
           None \<Rightarrow> for_loop env (index + 1) st
         | Some (moduleName, filePath) \<Rightarrow>
             (case process_pair env moduleName filePath st of
                Inl e \<Rightarrow> Some (Inl e)
              | Inr st' \<Rightarrow> for_loop env (index + 1) st'))
      else Some (Inr st))"

partial_function (option) while_loop ::
  "'fs env \<Rightarrow> 'fs state \<Rightarrow> ((error \<times> 'fs state) + 'fs state) option" where
  "while_loop env st =
     (if map_size (queue st) \<noteq> 0 then
        Option.bind (for_loop env 0 st)
          (\<lambda>r. case r of Inl e \<Rightarrow> Some (Inl e) | Inr st' \<Rightarrow> while_loop env st')
      else Some (Inr st))"

text \<open>
  The script from line 79 on. \<open>startTime\<close> and \<open>endTime\<close> are the two clock readings in
  milliseconds; \<^verbatim>\<open>Math.round\<close> rounds a half upwards.
\<close>

definition main ::
  "'fs env \<Rightarrow> 'fs \<Rightarrow> int \<Rightarrow> int \<Rightarrow> ((error \<times> 'fs state) + 'fs state) option" where
  "main env fs0 startTime endTime =
     (case scan env (EXE_PATH env) \<lparr>queue = [], fs = fs0, trace = []\<rparr> of
        Inl e \<Rightarrow> Some (Inl e)
      | Inr (q, st) \<Rightarrow>
          Option.bind (while_loop env (st\<lparr>queue := q\<rparr>))
            (\<lambda>r. case r of
                   Inl e \<Rightarrow> Some (Inl e)
                 | Inr st' \<Rightarrow>
                     Some (Inr (st'\<lparr>trace := trace st' @
                       [ConsoleLog (CostTime ((endTime - startTime + 500) div 1000))]\<rparr>))))"

declare for_loop.simps [code] while_loop.simps [code]

section \<open>Notions used to state the properties\<close>

text \<open>
  The path under which an entry is rescanned when its processing does not throw: its own
  path if that is truthy, the destination of the copy otherwise.
\<close>

definition rescan_path :: "'fs env \<Rightarrow> string \<Rightarrow> string option \<Rightarrow> string" where
  "rescan_path env moduleName filePath =
     (if truthy filePath then (case filePath of Some p \<Rightarrow> p | None \<Rightarrow> [])
      else path_join env (EXE_DIR_PATH env) moduleName)"

text \<open>
  The filtered dependency graph has no cycle: a depth is assigned to every file such that
  each filtered dependency the tool reports for a file, whatever the file system holds, is
  rescanned under a file of smaller depth.
\<close>

definition acyclic :: "'fs env \<Rightarrow> (string \<Rightarrow> nat) \<Rightarrow> bool" where
  "acyclic env depth \<longleftrightarrow>
     (\<forall>files targetPath deps d.
        execSync env files targetPath = Some deps \<longrightarrow> d \<in> set deps \<longrightarrow>
        INCLUDE_PATTERN env (ModuleName d) \<longrightarrow>
        depth (rescan_path env (ModuleName d) (Filepath d)) < depth targetPath)"

fun is_Exec :: "event \<Rightarrow> bool" where
  "is_Exec (Exec targetPath) = True"
| "is_Exec _ = False"

text \<open>
  The outcomes the script can be in between two pairs: after the seed scan, and after
  processing any live entry of the worklist of an outcome that is not an exception. Every
  state the two loops go through is among them.
\<close>

inductive reachable ::
  "'fs env \<Rightarrow> 'fs \<Rightarrow> (error \<times> 'fs state) + 'fs state \<Rightarrow> bool" for env fs0 where
  seed:
    "reachable env fs0
       (case scan env (EXE_PATH env) \<lparr>queue = [], fs = fs0, trace = []\<rparr> of
          Inl e \<Rightarrow> Inl e
        | Inr (q, st) \<Rightarrow> Inr (st\<lparr>queue := q\<rparr>))"
| pair:
    "reachable env fs0 (Inr st) \<Longrightarrow> index < length (queue st) \<Longrightarrow>
     queue st ! index = Some (moduleName, filePath) \<Longrightarrow>
     reachable env fs0 (process_pair env moduleName filePath st)"

text \<open>The state an outcome carries.\<close>

fun state_of :: "(error \<times> 'fs state) + 'fs state \<Rightarrow> 'fs state" where
  "state_of (Inl (e, st)) = st"
| "state_of (Inr st) = st"

text \<open>
  What "only filtered names" means for a state: every key of the worklist passes the
  pattern, every copy that was announced or made is the copy of a file named by a name
  that passes it into the directory of the executable. For an outcome, moreover, the
  module an exception reports as not found passes the pattern.
\<close>

definition filtered_state :: "'fs env \<Rightarrow> 'fs state \<Rightarrow> bool" where
  "filtered_state env st \<longleftrightarrow>
     (\<forall>k. map_has (queue st) k \<longrightarrow> INCLUDE_PATTERN env k) \<and>
     (\<forall>f. ConsoleLog (Copying f) \<in> set (trace st) \<longrightarrow> INCLUDE_PATTERN env f) \<and>
     (\<forall>src dest. CopyFile src dest \<in> set (trace st) \<longrightarrow>
        (\<exists>dir n. INCLUDE_PATTERN env n \<and> src = path_join env dir n \<and>
                 dest = path_join env (EXE_DIR_PATH env) n))"

definition only_filtered :: "'fs env \<Rightarrow> (error \<times> 'fs state) + 'fs state \<Rightarrow> bool" where
  "only_filtered env r \<longleftrightarrow>
     filtered_state env (state_of r) \<and>
     (\<forall>n st. r = Inl (CanNotFind n, st) \<longrightarrow> INCLUDE_PATTERN env n)"

section \<open>A small world to run the script in\<close>

text \<open>
  A file system that is the list of the paths of its files, directories joined to names
  with a slash, the executable in the directory \<open>''.''\<close>, and a dependency tool that
  answers from a table.
\<close>

type_synonym demo_fs = "string list"

definition demo_join :: "string \<Rightarrow> string \<Rightarrow> string" where
  "demo_join d f = d @ ''/'' @ f"

definition demo_readdir :: "demo_fs \<Rightarrow> string \<Rightarrow> string list option" where
  "demo_readdir files dir =
     Some (map (drop (length dir + 1))
        (filter (\<lambda>p. take (length dir + 1) p = dir @ ''/'') files))"

definition demo_copy :: "demo_fs \<Rightarrow> string \<Rightarrow> string \<Rightarrow> demo_fs option" where
  "demo_copy files src dest = (if src \<in> set files then Some (List.insert dest files) else None)"

definition demo_env :: "string list \<Rightarrow> (string \<times> dep list) list \<Rightarrow> demo_fs env" where
  "demo_env dirs table =
     \<lparr>EXE_PATH = shipped_EXE_PATH, SEARCH_DIRS = dirs, INCLUDE_PATTERN = vtk_pattern,
      execSync = (\<lambda>files targetPath. map_of table targetPath),
      readdirSync = demo_readdir, copyFileSync = demo_copy,
      path_join = demo_join, path_dirname = (\<lambda>p. ''.'')\<rparr>"

text \<open>The executable needs D and A, both beside it already, and A needs D.\<close>

definition diamond :: "(string \<times> dep list) list" where
  "diamond =
     [(''./QtVtk1.exe'', [\<lparr>ModuleName = ''vtkD.dll'', Filepath = Some ''./vtkD.dll''\<rparr>,
                          \<lparr>ModuleName = ''vtkA.dll'', Filepath = Some ''./vtkA.dll''\<rparr>]),
      (''./vtkD.dll'', []),
      (''./vtkA.dll'', [\<lparr>ModuleName = ''vtkD.dll'', Filepath = Some ''./vtkD.dll''\<rparr>])]"

text \<open>The executable needs A and a Qt library, A needs B, none of them beside it yet.\<close>

definition chain :: "(string \<times> dep list) list" where
  "chain =
     [(''./QtVtk1.exe'', [\<lparr>ModuleName = ''vtkA.dll'', Filepath = None\<rparr>,
                          \<lparr>ModuleName = ''Qt5Core.dll'', Filepath = None\<rparr>]),
      (''./vtkA.dll'', [\<lparr>ModuleName = ''vtkB.dll'', Filepath = None\<rparr>]),
      (''./vtkB.dll'', [])]"

text \<open>The executable needs A, A needs B and B needs A, all of them beside it already.\<close>

definition cycle :: "(string \<times> dep list) list" where
  "cycle =
     [(''./QtVtk1.exe'', [\<lparr>ModuleName = ''vtkA.dll'', Filepath = Some ''./vtkA.dll''\<rparr>]),
      (''./vtkA.dll'', [\<lparr>ModuleName = ''vtkB.dll'', Filepath = Some ''./vtkB.dll''\<rparr>]),
      (''./vtkB.dll'', [\<lparr>ModuleName = ''vtkA.dll'', Filepath = Some ''./vtkA.dll''\<rparr>])]"

text \<open>The tool lists A twice among the imports of the executable.\<close>

definition twice :: "(string \<times> dep list) list" where
  "twice =
     [(''./QtVtk1.exe'', [\<lparr>ModuleName = ''vtkA.dll'', Filepath = None\<rparr>,
                          \<lparr>ModuleName = ''Qt5Core.dll'', Filepath = None\<rparr>,
                          \<lparr>ModuleName = ''vtkA.dll'', Filepath = Some ''./vtkA.dll''\<rparr>])]"

text \<open>The executable needs nothing that the pattern lets through.\<close>

definition plain :: "(string \<times> dep list) list" where
  "plain = [(''./QtVtk1.exe'', [\<lparr>ModuleName = ''Qt5Core.dll'', Filepath = None\<rparr>])]"

text \<open>The tool reports A with an empty path.\<close>

definition blank :: "(string \<times> dep list) list" where
  "blank =
     [(''./QtVtk1.exe'', [\<lparr>ModuleName = ''vtkA.dll'', Filepath = Some []\<rparr>]),
      (''./vtkA.dll'', [])]"

text \<open>A depth for the files of the table \<open>chain\<close>.\<close>

definition chain_depth :: "string \<Rightarrow> nat" where
  "chain_depth targetPath =
     (if targetPath = ''./QtVtk1.exe'' then 2 else if targetPath = ''./vtkA.dll'' then 1 else 0)"

section \<open>Lemmas\<close>

subsection \<open>The Map\<close>

lemma map_entries_simps [simp]:
  "map_entries [] = []"
  "map_entries (None # m) = map_entries m"
  "map_entries (Some kv # m) = kv # map_entries m"
  by (simp_all add: map_entries_def map_filter_simps)

lemma map_entries_append [simp]: "map_entries (m @ m') = map_entries m @ map_entries m'"
proof (induction m)
  case (Cons a m)
  then show ?case by (cases a) simp_all
qed simp

lemma map_entries_replicate [simp]: "map_entries (replicate i None) = []"
  by (induction i) simp_all

lemma map_entries_Some [simp]: "map_entries (map Some kvs) = kvs"
  by (induction kvs) simp_all

lemma map_has_entries: "map_has m k \<longleftrightarrow> k \<in> fst ` set (map_entries m)"
  by (induction m k rule: map_has.induct) auto

lemma map_set_new: "\<not> map_has m k \<Longrightarrow> map_set m k v = m @ [Some (k, v)]"
  by (induction m k v rule: map_set.induct) auto

lemma map_keys_set:
  "map fst (map_entries (map_set m k v)) =
     (if map_has m k then map fst (map_entries m) else map fst (map_entries m) @ [k])"
  by (induction m k v rule: map_set.induct) auto

lemma map_set_no_hole: "None \<notin> set m \<Longrightarrow> None \<notin> set (map_set m k v)"
  by (induction m k v rule: map_set.induct) auto

lemma filter_entries_set_other:
  "k \<noteq> n \<Longrightarrow> filter (\<lambda>e. fst e = n) (map_entries (map_set m k v)) = filter (\<lambda>e. fst e = n) (map_entries m)"
  by (induction m k v rule: map_set.induct) auto

lemma filter_entries_set_same:
  "distinct (map fst (map_entries m)) \<Longrightarrow> filter (\<lambda>e. fst e = n) (map_entries (map_set m n v)) = [(n, v)]"
proof (induction m n v rule: map_set.induct)
  case (3 k' v' m k v)
  show ?case
  proof (cases "k' = k")
    case True
    with 3 have "k \<notin> fst ` set (map_entries m)" by auto
    then have "filter (\<lambda>e. fst e = k) (map_entries m) = []"
      by (auto simp: filter_empty_conv)
    with True show ?thesis by simp
  next
    case False
    with 3 show ?thesis by simp
  qed
qed simp_all

lemma distinct_keys_set:
  "distinct (map fst (map_entries m)) \<Longrightarrow> distinct (map fst (map_entries (map_set m k v)))"
  by (simp add: map_keys_set map_has_entries)

lemma map_delete_front:
  "map_delete (replicate i None @ Some (k, v) # m) k = replicate (Suc i) None @ m"
  by (induction i) simp_all

subsection \<open>What scan keeps\<close>

lemma keep_simp:
  "keep pat result dep =
     (if pat (ModuleName dep) then map_set result (ModuleName dep) (Filepath dep) else result)"
  by (simp add: keep_def)

lemma foldl_keep_distinct:
  "distinct (map fst (map_entries m)) \<Longrightarrow> distinct (map fst (map_entries (foldl (keep pat) m deps)))"
  by (induction deps arbitrary: m) (simp_all add: keep_simp distinct_keys_set)

lemma foldl_keep_no_hole: "None \<notin> set m \<Longrightarrow> None \<notin> set (foldl (keep pat) m deps)"
  by (induction deps arbitrary: m) (simp_all add: keep_simp map_set_no_hole)

lemma foldl_keep_other:
  "\<forall>y\<in>set deps. ModuleName y \<noteq> n \<Longrightarrow>
   filter (\<lambda>e. fst e = n) (map_entries (foldl (keep pat) m deps)) = filter (\<lambda>e. fst e = n) (map_entries m)"
  by (induction deps arbitrary: m) (simp_all add: keep_simp filter_entries_set_other)

lemma foldl_keep_from:
  "set (map_entries (foldl (keep pat) m deps)) \<subseteq>
     set (map_entries m) \<union> {(ModuleName d, Filepath d) | d. d \<in> set deps \<and> pat (ModuleName d)}"
proof (induction deps arbitrary: m)
  case Nil
  show ?case by simp
next
  case (Cons d deps)
  have one: "set (map_entries (map_set m k v)) \<subseteq> insert (k, v) (set (map_entries m))" for m :: "string option jsmap" and k v
    by (induction m k v rule: map_set.induct) auto
  show ?case
  proof (cases "pat (ModuleName d)")
    case True
    with Cons[of "map_set m (ModuleName d) (Filepath d)"] one[of m "ModuleName d" "Filepath d"]
    show ?thesis by (auto simp: keep_simp)
  next
    case False
    with Cons[of m] show ?thesis by (auto simp: keep_simp)
  qed
qed

lemma scan_result_last_wins:
  assumes "pat (ModuleName d)" "\<forall>y\<in>set ys. ModuleName y \<noteq> ModuleName d"
  shows "filter (\<lambda>e. fst e = ModuleName d) (map_entries (scan_result pat (xs @ d # ys)))
           = [(ModuleName d, Filepath d)]"
proof -
  let ?m = "foldl (keep pat) [] xs"
  have "distinct (map fst (map_entries ?m))"
    by (rule foldl_keep_distinct) simp
  then have "filter (\<lambda>e. fst e = ModuleName d) (map_entries (map_set ?m (ModuleName d) (Filepath d)))
           = [(ModuleName d, Filepath d)]"
    by (rule filter_entries_set_same)
  with assms show ?thesis
    by (simp add: scan_result_def foldl_keep_other keep_simp)
qed

lemma scan_result_no_hole: "None \<notin> set (scan_result pat deps)"
  unfolding scan_result_def by (rule foldl_keep_no_hole) simp

lemma scan_result_Some: "scan_result pat deps = map Some (map_entries (scan_result pat deps))"
proof -
  have "None \<notin> set m \<Longrightarrow> m = map Some (map_entries m)" for m :: "string option jsmap"
  proof (induction m)
    case (Cons a m)
    then show ?case by (cases a) simp_all
  qed simp
  then show ?thesis using scan_result_no_hole by blast
qed

lemma scan_result_from:
  "e \<in> set (map_entries (scan_result pat deps)) \<Longrightarrow>
     \<exists>d\<in>set deps. pat (ModuleName d) \<and> e = (ModuleName d, Filepath d)"
  using foldl_keep_from[of pat "[]" deps] unfolding scan_result_def by auto

subsection \<open>What the children add\<close>

lemma enqueue_appends:
  "\<exists>new. enqueue q children = q @ map Some new \<and> set new \<subseteq> set (map_entries children)
       \<and> (\<forall>e\<in>set new. \<not> map_has q (fst e)) \<and> distinct (map fst new)"
  unfolding enqueue_def
proof (induction children arbitrary: q)
  case Nil
  show ?case by simp
next
  case (Cons c children)
  show ?case
  proof (cases c)
    case None
    with Cons[of q] show ?thesis by (simp add: offer_def)
  next
    case (Some kv)
    obtain k v where kv: "kv = (k, v)" by (cases kv)
    show ?thesis
    proof (cases "map_has q k")
      case True
      with Cons[of q] Some kv show ?thesis by (auto simp: offer_def)
    next
      case False
      from Cons[of "q @ [Some (k, v)]"] obtain new where
        new: "foldl offer (q @ [Some (k, v)]) children = (q @ [Some (k, v)]) @ map Some new"
          "set new \<subseteq> set (map_entries children)"
          "\<forall>e\<in>set new. \<not> map_has (q @ [Some (k, v)]) (fst e)" "distinct (map fst new)"
        by blast
      have "foldl offer q (c # children) = q @ map Some ((k, v) # new)"
        using new(1) False Some kv by (simp add: offer_def map_set_new)
      moreover have "set ((k, v) # new) \<subseteq> set (map_entries (c # children))"
        using new(2) Some kv by auto
      moreover have "\<forall>e\<in>set ((k, v) # new). \<not> map_has q (fst e)"
        using new(3) False by (auto simp: map_has_entries)
      moreover have "distinct (map fst ((k, v) # new))"
        using new(3,4) by (auto simp: map_has_entries)
      ultimately show ?thesis by blast
    qed
  qed
qed

subsection \<open>The steps of one pair\<close>

lemma scan_Inr:
  "scan env p st = Inr (ch, st') \<Longrightarrow>
     st' = st\<lparr>trace := trace st @ [Exec p]\<rparr> \<and>
     (\<exists>deps. execSync env (fs st) p = Some deps \<and> ch = scan_result (INCLUDE_PATTERN env) deps)"
  by (auto simp: scan_def Let_def split: option.splits)

lemma scan_Inl:
  "scan env p st = Inl (e, st') \<Longrightarrow> e = ExecError p \<and> st' = st\<lparr>trace := trace st @ [Exec p]\<rparr>"
  by (auto simp: scan_def Let_def split: option.splits)

lemma find_eq: "List.find (\<lambda>f. f = n) files = (if n \<in> set files then Some n else None)"
  by (induction files) auto

lemma search_miss:
  "\<forall>d\<in>set dirs. \<exists>files. readdirSync env (fs st) d = Some files \<and> n \<notin> set files \<Longrightarrow>
   search env n dirs st = Inr (None, st\<lparr>trace := trace st @ map ReadDir dirs\<rparr>)"
proof (induction dirs arbitrary: st)
  case Nil
  show ?case by simp
next
  case (Cons d dirs)
  let ?st = "st\<lparr>trace := trace st @ [ReadDir d]\<rparr>"
  from Cons.prems obtain files where files: "readdirSync env (fs st) d = Some files" "n \<notin> set files"
    by auto
  have "search env n dirs ?st = Inr (None, ?st\<lparr>trace := trace ?st @ map ReadDir dirs\<rparr>)"
    by (rule Cons.IH) (use Cons.prems in simp)
  with files show ?case by (simp add: find_eq)
qed

lemma search_hit:
  assumes "\<forall>d\<in>set before. \<exists>files. readdirSync env (fs st) d = Some files \<and> n \<notin> set files"
    and "readdirSync env (fs st) dir = Some files" and "n \<in> set files" and "n \<noteq> []"
  shows "search env n (before @ dir # after) st =
           Inr (Some (n, dir), st\<lparr>trace := trace st @ map ReadDir before @ [ReadDir dir]\<rparr>)"
  using assms
proof (induction before arbitrary: st)
  case Nil
  then show ?case by (simp add: find_eq)
next
  case (Cons d before)
  let ?st = "st\<lparr>trace := trace st @ [ReadDir d]\<rparr>"
  from Cons.prems obtain fd where fd: "readdirSync env (fs st) d = Some fd" "n \<notin> set fd"
    by auto
  have "search env n (before @ dir # after) ?st =
          Inr (Some (n, dir), ?st\<lparr>trace := trace ?st @ map ReadDir before @ [ReadDir dir]\<rparr>)"
    by (rule Cons.IH) (use Cons.prems in simp_all)
  with fd show ?case by (simp add: find_eq)
qed

text \<open>Whatever the search returns, it has only listed directories.\<close>

lemma search_frame:
  "search env n dirs st = r \<Longrightarrow>
     \<exists>ds. (case r of Inl (e, st') \<Rightarrow> st' | Inr (res, st') \<Rightarrow> st')
             = st\<lparr>trace := trace st @ map ReadDir ds\<rparr>"
proof (induction dirs arbitrary: st r)
  case Nil
  then have "(case r of Inl (e, st') \<Rightarrow> st' | Inr (res, st') \<Rightarrow> st') = st\<lparr>trace := trace st @ map ReadDir []\<rparr>"
    by auto
  then show ?case by blast
next
  case (Cons d dirs)
  let ?st = "st\<lparr>trace := trace st @ [ReadDir d]\<rparr>"
  have here: "\<exists>ds. ?st = st\<lparr>trace := trace st @ map ReadDir ds\<rparr>"
    by (rule exI[of _ "[d]"]) simp
  have later: "\<exists>ds. (case search env n dirs ?st of Inl (e, st') \<Rightarrow> st' | Inr (res, st') \<Rightarrow> st')
             = st\<lparr>trace := trace st @ map ReadDir ds\<rparr>"
  proof -
    from Cons.IH[OF refl, of ?st] obtain ds where
      "(case search env n dirs ?st of Inl (e, st') \<Rightarrow> st' | Inr (res, st') \<Rightarrow> st')
         = ?st\<lparr>trace := trace ?st @ map ReadDir ds\<rparr>" by blast
    then have "(case search env n dirs ?st of Inl (e, st') \<Rightarrow> st' | Inr (res, st') \<Rightarrow> st')
         = st\<lparr>trace := trace st @ map ReadDir (d # ds)\<rparr>" by simp
    then show ?thesis by blast
  qed
  from Cons.prems here later show ?case
    by (auto simp: find_eq Let_def split: option.splits if_splits)
qed

lemma search_found:
  "search env n dirs st = Inr (Some (f, d), st') \<Longrightarrow> f = n \<and> d \<in> set dirs"
  by (induction dirs arbitrary: st) (auto simp: find_eq Let_def split: option.splits if_splits)

lemma search_error:
  "search env n dirs st = Inl (e, st') \<Longrightarrow> \<exists>d. e = ReaddirError d"
  by (induction dirs arbitrary: st) (auto simp: find_eq Let_def split: option.splits if_splits)

lemma populate_truthy:
  "truthy filePath \<Longrightarrow>
   populate env n filePath st =
     Inr (rescan_path env n filePath, st\<lparr>queue := map_delete (queue st) n\<rparr>)"
  by (cases filePath) (simp_all add: populate_def rescan_path_def)

lemma populate_falsy: "\<not> truthy filePath \<Longrightarrow> populate env n filePath st = copy_missing env n st"
  by (cases filePath) (simp_all add: populate_def)

lemma copy_missing_Inr:
  assumes "copy_missing env n st = Inr (p, st')"
  shows "p = path_join env (EXE_DIR_PATH env) n \<and>
     (\<exists>ds d fs'. d \<in> set (SEARCH_DIRS env) \<and>
        copyFileSync env (fs st) (path_join env d n) p = Some fs' \<and>
        st' = st\<lparr>trace := trace st @ map ReadDir ds @
                  [ConsoleLog (Copying n), CopyFile (path_join env d n) p],
                fs := fs', queue := map_delete (queue st) n\<rparr>)"
proof -
  from assms obtain f d st1 where s: "search env n (SEARCH_DIRS env) st = Inr (Some (f, d), st1)"
    by (auto simp: copy_missing_def split: sum.splits option.splits prod.splits)
  from search_found[OF s] have fd: "f = n" "d \<in> set (SEARCH_DIRS env)" by simp_all
  from search_frame[OF s] obtain ds where st1: "st1 = st\<lparr>trace := trace st @ map ReadDir ds\<rparr>"
    by auto
  from assms s fd st1 show ?thesis
    by (auto simp: copy_missing_def Let_def split: option.splits)
qed

lemma copy_missing_Inl:
  assumes "copy_missing env n st = Inl (e, st')"
  shows "\<exists>ds. (st' = st\<lparr>trace := trace st @ map ReadDir ds\<rparr> \<and>
                (e = CanNotFind n \<or> (\<exists>d. e = ReaddirError d))) \<or>
              (\<exists>d\<in>set (SEARCH_DIRS env).
                 e = CopyError (path_join env d n) (path_join env (EXE_DIR_PATH env) n) \<and>
                 st' = st\<lparr>trace := trace st @ map ReadDir ds @
                   [ConsoleLog (Copying n),
                    CopyFile (path_join env d n) (path_join env (EXE_DIR_PATH env) n)]\<rparr>)"
proof (cases "search env n (SEARCH_DIRS env) st")
  case (Inl a)
  obtain e1 st1 where a: "a = (e1, st1)" by (cases a)
  from search_frame[OF Inl] a obtain ds where "st1 = st\<lparr>trace := trace st @ map ReadDir ds\<rparr>"
    by auto
  moreover have "\<exists>d. e1 = ReaddirError d"
    using Inl a search_error by blast
  ultimately show ?thesis using assms Inl a by (auto simp: copy_missing_def)
next
  case (Inr b)
  obtain res st1 where b: "b = (res, st1)" by (cases b)
  from search_frame[OF Inr] b obtain ds where st1: "st1 = st\<lparr>trace := trace st @ map ReadDir ds\<rparr>"
    by auto
  show ?thesis
  proof (cases res)
    case None
    with assms Inr b st1 show ?thesis by (auto simp: copy_missing_def)
  next
    case (Some fd)
    obtain f d where fd: "fd = (f, d)" by (cases fd)
    from search_found[of env n "SEARCH_DIRS env" st f d st1] Inr b Some fd
    have "f = n" "d \<in> set (SEARCH_DIRS env)" by simp_all
    with assms Inr b st1 Some fd show ?thesis
      by (auto simp: copy_missing_def Let_def split: option.splits)
  qed
qed

lemma map_get_entries:
  "map_get m k = (case filter (\<lambda>e. fst e = k) (map_entries m) of [] \<Rightarrow> None | e # es \<Rightarrow> Some (snd e))"
  by (induction m k rule: map_get.induct) auto

lemma map_has_set: "map_has (map_set m k v) k' \<longleftrightarrow> k' = k \<or> map_has m k'"
  by (induction m k v rule: map_set.induct) auto

lemma map_has_offer:
  "map_has (offer q c) k \<longleftrightarrow> map_has q k \<or> (\<exists>v. c = Some (k, v))"
  by (cases c) (auto simp: offer_def map_has_set split: if_splits)

lemma map_has_enqueue: "map_has (enqueue q children) k \<longleftrightarrow> map_has q k \<or> map_has children k"
  unfolding enqueue_def
proof (induction children arbitrary: q)
  case Nil
  show ?case by simp
next
  case (Cons c children)
  show ?case
  proof (cases c)
    case None
    with Cons[of "offer q c"] show ?thesis by (simp add: map_has_offer)
  next
    case (Some kv)
    with Cons[of "offer q c"] show ?thesis by (cases kv) (auto simp: map_has_offer)
  qed
qed

lemma map_has_foldl_keep:
  "map_has (foldl (keep pat) m deps) k \<longleftrightarrow>
     map_has m k \<or> (\<exists>d\<in>set deps. pat (ModuleName d) \<and> ModuleName d = k)"
  by (induction deps arbitrary: m) (auto simp: keep_simp map_has_set)

lemma map_has_scan_result:
  "map_has (scan_result pat deps) k \<longleftrightarrow> (\<exists>d\<in>set deps. pat (ModuleName d) \<and> ModuleName d = k)"
  by (simp add: scan_result_def map_has_foldl_keep)

lemma enqueue_keeps:
  assumes "map_has q k"
  shows "filter (\<lambda>e. fst e = k) (map_entries (enqueue q children)) = filter (\<lambda>e. fst e = k) (map_entries q)"
proof -
  from enqueue_appends[of q children] obtain new where
    new: "enqueue q children = q @ map Some new" "\<forall>e\<in>set new. \<not> map_has q (fst e)"
    by blast
  from new(2) assms have "filter (\<lambda>e. fst e = k) new = []"
    by (auto simp: filter_empty_conv)
  with new(1) show ?thesis by simp
qed

lemma process_pair_Inr:
  assumes "process_pair env n filePath st = Inr st'"
  obtains st1 deps where
    "populate env n filePath st = Inr (rescan_path env n filePath, st1)"
    "queue st1 = map_delete (queue st) n"
    "execSync env (fs st1) (rescan_path env n filePath) = Some deps"
    "st' = st1\<lparr>trace := trace st1 @ [Exec (rescan_path env n filePath)],
               queue := enqueue (queue st1) (scan_result (INCLUDE_PATTERN env) deps)\<rparr>"
proof -
  from assms obtain p st1 where pop: "populate env n filePath st = Inr (p, st1)"
    by (auto simp: process_pair_def split: sum.splits)
  have p: "p = rescan_path env n filePath \<and> queue st1 = map_delete (queue st) n"
  proof (cases "truthy filePath")
    case True
    with pop show ?thesis by (auto simp: populate_truthy)
  next
    case False
    with pop have "copy_missing env n st = Inr (p, st1)" by (simp add: populate_falsy)
    from copy_missing_Inr[OF this] False show ?thesis by (auto simp: rescan_path_def)
  qed
  from assms pop obtain ch st2 where sc: "scan env p st1 = Inr (ch, st2)"
    and st': "st' = st2\<lparr>queue := enqueue (queue st2) ch\<rparr>"
    by (auto simp: process_pair_def split: sum.splits)
  from scan_Inr[OF sc] obtain deps where
    d: "st2 = st1\<lparr>trace := trace st1 @ [Exec p]\<rparr>" "execSync env (fs st1) p = Some deps"
    "ch = scan_result (INCLUDE_PATTERN env) deps" by (elim exE conjE)
  show ?thesis
  proof (rule that[of st1 deps])
    show "populate env n filePath st = Inr (rescan_path env n filePath, st1)"
      using pop p by simp
    show "queue st1 = map_delete (queue st) n" using p by simp
    show "execSync env (fs st1) (rescan_path env n filePath) = Some deps" using d(2) p by simp
    show "st' = st1\<lparr>trace := trace st1 @ [Exec (rescan_path env n filePath)],
               queue := enqueue (queue st1) (scan_result (INCLUDE_PATTERN env) deps)\<rparr>"
      using st' d(1,3) p by simp
  qed
qed

subsection \<open>The loops\<close>

text \<open>The while loop and the script pass an exception on as it is.\<close>

lemma while_loop_throws:
  "for_loop env 0 st = Some (Inl x) \<Longrightarrow> map_size (queue st) \<noteq> 0 \<Longrightarrow> while_loop env st = Some (Inl x)"
  by (subst while_loop.simps) simp

lemma main_throws:
  "scan env (EXE_PATH env) \<lparr>queue = [], fs = fs0, trace = []\<rparr> = Inr (q, st) \<Longrightarrow>
   while_loop env (st\<lparr>queue := q\<rparr>) = Some (Inl x) \<Longrightarrow>
   main env fs0 startTime endTime = Some (Inl x)"
  by (simp add: main_def)

lemmas run_defs =
  demo_env_def process_pair_def populate_def copy_missing_def scan_def scan_result_def keep_def
  enqueue_def offer_def vtk_pattern_def demo_readdir_def demo_copy_def demo_join_def
  EXE_DIR_PATH_def shipped_EXE_PATH_def Let_def

lemma nth_frontier: "(replicate i None @ Some kv # m) ! i = Some kv"
  by (simp add: nth_append)

lemma populate_no_exec:
  assumes "populate env n filePath st = Inr (p, st1)"
  shows "filter is_Exec (trace st1) = filter is_Exec (trace st)"
proof (cases "truthy filePath")
  case True
  with assms show ?thesis by (auto simp: populate_truthy)
next
  case False
  with assms have "copy_missing env n st = Inr (p, st1)" by (simp add: populate_falsy)
  from copy_missing_Inr[OF this] show ?thesis by auto
qed

lemma process_pair_frontier:
  assumes "process_pair env n filePath st = Inr st'"
    and "queue st = replicate i None @ Some (n, filePath) # map Some rest"
  obtains deps new where
    "execSync env (fs st') (rescan_path env n filePath) = Some deps"
    "queue st' = replicate (Suc i) None @ map Some (rest @ new)"
    "\<forall>e\<in>set new. \<exists>d\<in>set deps. INCLUDE_PATTERN env (ModuleName d) \<and> e = (ModuleName d, Filepath d)"
    "length (filter is_Exec (trace st')) = Suc (length (filter is_Exec (trace st)))"
proof -
  from assms(1) obtain st1 deps where
    pop: "populate env n filePath st = Inr (rescan_path env n filePath, st1)"
    and q1: "queue st1 = map_delete (queue st) n"
    and deps: "execSync env (fs st1) (rescan_path env n filePath) = Some deps"
    and st': "st' = st1\<lparr>trace := trace st1 @ [Exec (rescan_path env n filePath)],
               queue := enqueue (queue st1) (scan_result (INCLUDE_PATTERN env) deps)\<rparr>"
    by (rule process_pair_Inr)
  from q1 assms(2) have q1': "queue st1 = replicate (Suc i) None @ map Some rest"
    by (simp only: map_delete_front)
  from enqueue_appends[of "queue st1" "scan_result (INCLUDE_PATTERN env) deps"] obtain new where
    new: "enqueue (queue st1) (scan_result (INCLUDE_PATTERN env) deps) = queue st1 @ map Some new"
    and sub: "set new \<subseteq> set (map_entries (scan_result (INCLUDE_PATTERN env) deps))"
    by (elim exE conjE)
  show ?thesis
  proof (rule that[of deps new])
    show "execSync env (fs st') (rescan_path env n filePath) = Some deps"
      using st' deps by simp
    show "queue st' = replicate (Suc i) None @ map Some (rest @ new)"
      using st' new q1' by simp
    show "\<forall>e\<in>set new. \<exists>d\<in>set deps. INCLUDE_PATTERN env (ModuleName d) \<and> e = (ModuleName d, Filepath d)"
      using sub scan_result_from by blast
    show "length (filter is_Exec (trace st')) = Suc (length (filter is_Exec (trace st)))"
      using st' populate_no_exec[OF pop] by simp
  qed
qed

text \<open>
  What a pass that returns has done, from iterator position \<open>i\<close> on, when every slot before
  \<open>i\<close> is emptied and none after it is.
\<close>

lemma for_loop_drains:
  assumes "for_loop env i st = Some r"
  shows "\<forall>kvs. queue st = replicate i None @ map Some kvs \<longrightarrow>
           (\<forall>st'. r = Inr st' \<longrightarrow>
              queue st' = replicate (length (queue st')) None \<and>
              length (queue st) \<le> length (queue st') \<and>
              length (filter is_Exec (trace st')) =
                length (filter is_Exec (trace st)) + (length (queue st') - i))"
  using assms
proof (induction env i st r rule: for_loop.raw_induct[rotated 1, consumes 1, case_names step])
  case (step loop env i st r)
  show ?case
  proof (intro allI impI)
    fix kvs st'
    assume q: "queue st = replicate i None @ map Some kvs" and r: "r = Inr st'"
    show "queue st' = replicate (length (queue st')) None \<and>
              length (queue st) \<le> length (queue st') \<and>
              length (filter is_Exec (trace st')) =
                length (filter is_Exec (trace st)) + (length (queue st') - i)"
    proof (cases kvs)
      case Nil
      with q have "\<not> i < length (queue st)" by simp
      with step(2) r have "st' = st" by simp
      with q Nil show ?thesis by simp
    next
      case (Cons kv rest)
      obtain n filePath where kv: "kv = (n, filePath)" by (cases kv)
      from q Cons kv have q': "queue st = replicate i None @ Some (n, filePath) # map Some rest"
        by simp
      then have lt: "i < length (queue st)" and at: "queue st ! i = Some (n, filePath)"
        by (simp_all add: nth_frontier)
      from step(2) r lt at obtain st1 where
        pp: "process_pair env n filePath st = Inr st1" and rec: "loop env (i + 1) st1 = Some r"
        by (auto split: sum.splits)
      from pp q' obtain deps new where
        q1: "queue st1 = replicate (Suc i) None @ map Some (rest @ new)"
        and ex: "length (filter is_Exec (trace st1)) = Suc (length (filter is_Exec (trace st)))"
        by (rule process_pair_frontier)
      from q1 have q1': "queue st1 = replicate (i + 1) None @ map Some (rest @ new)"
        by simp
      note all = step(1)[OF rec, rule_format, OF q1' r]
      have fin: "queue st' = replicate (length (queue st')) None"
        "length (queue st1) \<le> length (queue st')"
        "length (filter is_Exec (trace st')) =
           length (filter is_Exec (trace st1)) + (length (queue st') - (i + 1))"
        using all by blast+
      from q1 q' have "length (queue st) \<le> length (queue st1)" "i + 1 \<le> length (queue st1)"
        by simp_all
      with fin ex show ?thesis by simp
    qed
  qed
qed

lemma map_size_replicate: "map_size (replicate k None) = 0"
  by (simp add: map_size_def)

text \<open>From a worklist without emptied slots the while loop is one pass of the for loop.\<close>

lemma while_is_one_pass:
  assumes "queue st = map Some kvs"
  shows "while_loop env st = for_loop env 0 st"
proof (cases kvs)
  case Nil
  with assms have "while_loop env st = Some (Inr st)"
    by (subst while_loop.simps) (simp add: map_size_def)
  moreover from Nil assms have "for_loop env 0 st = Some (Inr st)"
    by (subst for_loop.simps) simp
  ultimately show ?thesis by simp
next
  case (Cons kv rest)
  with assms have size: "map_size (queue st) \<noteq> 0" by (simp add: map_size_def)
  show ?thesis
  proof (cases "for_loop env 0 st")
    case None
    with size show ?thesis by (subst while_loop.simps) simp
  next
    case (Some r)
    show ?thesis
    proof (cases r)
      case (Inl x)
      with Some size show ?thesis by (subst while_loop.simps) simp
    next
      case (Inr st')
      from assms have "queue st = replicate 0 None @ map Some kvs" by simp
      with for_loop_drains[OF Some] Inr have "queue st' = replicate (length (queue st')) None"
        by blast
      then have "map_size (queue st') = 0" by (metis map_size_replicate)
      then have "while_loop env st' = Some (Inr st')"
        by (subst while_loop.simps) simp
      with Some Inr size show ?thesis by (subst while_loop.simps) simp
    qed
  qed
qed

lemma seed_queue:
  assumes "scan env p st = Inr (q, st')"
  obtains kvs where "q = map Some kvs"
    "st' = st\<lparr>trace := trace st @ [Exec p]\<rparr>"
proof -
  from scan_Inr[OF assms] obtain deps where
    d: "st' = st\<lparr>trace := trace st @ [Exec p]\<rparr>" "q = scan_result (INCLUDE_PATTERN env) deps"
    by (elim exE conjE)
  from d(2) have "q = map Some (map_entries q)" using scan_result_Some by simp
  from this d(1) show ?thesis by (rule that)
qed

lemmas loop_defs = main_def while_loop.simps for_loop.simps map_size_def

subsection \<open>Termination\<close>

lemma for_loop_returns:
  assumes "acyclic env depth"
  shows "queue st = replicate i None @ map Some kvs \<Longrightarrow> \<exists>r. for_loop env i st = Some r"
  using wf_mult[OF wf_less]
proof (induction "mset (map (\<lambda>e. depth (rescan_path env (fst e) (snd e))) kvs)"
         arbitrary: i st kvs rule: wf_induct_rule)
  case less
  let ?rk = "\<lambda>e. depth (rescan_path env (fst e) (snd e))"
  show ?case
  proof (cases kvs)
    case Nil
    with less.prems have "for_loop env i st = Some (Inr st)"
      by (subst for_loop.simps) simp
    then show ?thesis by blast
  next
    case (Cons kv rest)
    obtain n filePath where kv: "kv = (n, filePath)" by (cases kv)
    from less.prems Cons kv have q: "queue st = replicate i None @ Some (n, filePath) # map Some rest"
      by simp
    then have lt: "i < length (queue st)" and at: "queue st ! i = Some (n, filePath)"
      by (simp_all add: nth_frontier)
    show ?thesis
    proof (cases "process_pair env n filePath st")
      case (Inl x)
      with lt at have "for_loop env i st = Some (Inl x)"
        by (subst for_loop.simps) simp
      then show ?thesis by blast
    next
      case (Inr st1)
      from Inr q obtain deps new where
        deps: "execSync env (fs st1) (rescan_path env n filePath) = Some deps"
        and q1: "queue st1 = replicate (Suc i) None @ map Some (rest @ new)"
        and new: "\<forall>e\<in>set new. \<exists>d\<in>set deps. INCLUDE_PATTERN env (ModuleName d) \<and> e = (ModuleName d, Filepath d)"
        by (rule process_pair_frontier)
      have smaller: "\<forall>e\<in>set new. ?rk e < ?rk kv"
      proof
        fix e assume "e \<in> set new"
        with new obtain d where d: "d \<in> set deps" "INCLUDE_PATTERN env (ModuleName d)"
          "e = (ModuleName d, Filepath d)" by blast
        with assms deps have
          "depth (rescan_path env (ModuleName d) (Filepath d)) < depth (rescan_path env n filePath)"
          unfolding acyclic_def by blast
        with d(3) kv show "?rk e < ?rk kv" by simp
      qed
      have "(mset (map ?rk rest) + mset (map ?rk new), mset (map ?rk rest) + {#?rk kv#})
              \<in> mult {(x, y). x < y}"
        by (rule one_step_implies_mult) (use smaller in auto)
      then have dec: "(mset (map ?rk (rest @ new)), mset (map ?rk kvs)) \<in> mult {(x, y). x < y}"
        using Cons by simp
      from less.hyps[OF dec q1] obtain r where "for_loop env (Suc i) st1 = Some r" by blast
      with lt at Inr have "for_loop env i st = Some r"
        by (subst for_loop.simps) simp
      then show ?thesis by blast
    qed
  qed
qed

lemma map_has_replicate: "\<not> map_has (replicate i None) k"
  by (induction i) simp_all

lemma cycle_no_result:
  assumes "for_loop env i st = Some r"
  shows "env = demo_env dirs cycle \<longrightarrow>
         queue st = replicate i None @ [Some (''vtkA.dll'', Some ''./vtkA.dll'')] \<or>
         queue st = replicate i None @ [Some (''vtkB.dll'', Some ''./vtkB.dll'')] \<longrightarrow> False"
  using assms
proof (induction env i st r rule: for_loop.raw_induct[rotated 1, consumes 1, case_names step])
  case (step loop env i st r)
  show ?case
  proof (intro impI)
    assume env: "env = demo_env dirs cycle"
      and q: "queue st = replicate i None @ [Some (''vtkA.dll'', Some ''./vtkA.dll'')] \<or>
              queue st = replicate i None @ [Some (''vtkB.dll'', Some ''./vtkB.dll'')]"
    from q show False
    proof
      assume qa: "queue st = replicate i None @ [Some (''vtkA.dll'', Some ''./vtkA.dll'')]"
      then have lt: "i < length (queue st)"
        and at: "queue st ! i = Some (''vtkA.dll'', Some ''./vtkA.dll'')"
        by (simp_all add: nth_frontier)
      have "process_pair env ''vtkA.dll'' (Some ''./vtkA.dll'') st =
            Inr (st\<lparr>queue := replicate (Suc i) None @ [Some (''vtkB.dll'', Some ''./vtkB.dll'')],
                    trace := trace st @ [Exec ''./vtkA.dll'']\<rparr>)"
        unfolding env using qa
        by (simp add: run_defs cycle_def map_delete_front map_has_replicate map_set_new)
      with step(2) lt at have "loop env (i + 1)
          (st\<lparr>queue := replicate (Suc i) None @ [Some (''vtkB.dll'', Some ''./vtkB.dll'')],
              trace := trace st @ [Exec ''./vtkA.dll'']\<rparr>) = Some r"
        by simp
      from step(1)[OF this] env show False by simp
    next
      assume qb: "queue st = replicate i None @ [Some (''vtkB.dll'', Some ''./vtkB.dll'')]"
      then have lt: "i < length (queue st)"
        and at: "queue st ! i = Some (''vtkB.dll'', Some ''./vtkB.dll'')"
        by (simp_all add: nth_frontier)
      have "process_pair env ''vtkB.dll'' (Some ''./vtkB.dll'') st =
            Inr (st\<lparr>queue := replicate (Suc i) None @ [Some (''vtkA.dll'', Some ''./vtkA.dll'')],
                    trace := trace st @ [Exec ''./vtkB.dll'']\<rparr>)"
        unfolding env using qb
        by (simp add: run_defs cycle_def map_delete_front map_has_replicate map_set_new)
      with step(2) lt at have "loop env (i + 1)
          (st\<lparr>queue := replicate (Suc i) None @ [Some (''vtkA.dll'', Some ''./vtkA.dll'')],
              trace := trace st @ [Exec ''./vtkB.dll'']\<rparr>) = Some r"
        by simp
      from step(1)[OF this] env show False by simp
    qed
  qed
qed

subsection \<open>The filter as an invariant\<close>

lemma map_has_delete: "map_has (map_delete m k) k' \<Longrightarrow> map_has m k'"
  by (induction m k rule: map_delete.induct) (auto split: if_splits)

lemma nth_map_has: "i < length m \<Longrightarrow> m ! i = Some (k, v) \<Longrightarrow> map_has m k"
proof (induction m k arbitrary: i rule: map_has.induct)
  case (2 m k)
  then show ?case by (cases i) auto
next
  case (3 k' v' m k)
  then show ?case by (cases i) auto
qed simp

lemma filtered_state_listing:
  "filtered_state env st \<Longrightarrow> filtered_state env (st\<lparr>trace := trace st @ map ReadDir ds\<rparr>)"
  by (auto simp: filtered_state_def)

lemma filtered_state_exec:
  "filtered_state env st \<Longrightarrow> filtered_state env (st\<lparr>trace := trace st @ [Exec p]\<rparr>)"
  by (auto simp: filtered_state_def)

lemma filtered_state_copy:
  assumes "filtered_state env st" and "INCLUDE_PATTERN env n"
  shows "filtered_state env
           (st\<lparr>trace := trace st @ map ReadDir ds @
                  [ConsoleLog (Copying n),
                   CopyFile (path_join env d n) (path_join env (EXE_DIR_PATH env) n)]\<rparr>)"
  using assms by (auto simp: filtered_state_def)

lemma filtered_state_fs: "filtered_state env st \<Longrightarrow> filtered_state env (st\<lparr>fs := files\<rparr>)"
  by (simp add: filtered_state_def)

lemma filtered_state_delete:
  "filtered_state env st \<Longrightarrow> filtered_state env (st\<lparr>queue := map_delete (queue st) n\<rparr>)"
  by (auto simp: filtered_state_def dest: map_has_delete)

lemma filtered_state_enqueue:
  "filtered_state env st \<Longrightarrow>
   filtered_state env (st\<lparr>queue := enqueue (queue st) (scan_result (INCLUDE_PATTERN env) deps)\<rparr>)"
  by (auto simp: filtered_state_def map_has_enqueue map_has_scan_result)

lemma populate_filtered:
  assumes "filtered_state env st" and "INCLUDE_PATTERN env n"
  shows "case populate env n filePath st of
           Inl (e, st1) \<Rightarrow> filtered_state env st1 \<and> (\<forall>m. e = CanNotFind m \<longrightarrow> m = n)
         | Inr (p, st1) \<Rightarrow> filtered_state env st1"
proof (cases "truthy filePath")
  case True
  with assms show ?thesis by (simp add: populate_truthy filtered_state_delete)
next
  case False
  show ?thesis
  proof (cases "copy_missing env n st")
    case (Inl a)
    obtain e st1 where a: "a = (e, st1)" by (cases a)
    from copy_missing_Inl[of env n st e st1] Inl a obtain ds where
      "(st1 = st\<lparr>trace := trace st @ map ReadDir ds\<rparr> \<and>
          (e = CanNotFind n \<or> (\<exists>d. e = ReaddirError d))) \<or>
       (\<exists>d\<in>set (SEARCH_DIRS env).
          e = CopyError (path_join env d n) (path_join env (EXE_DIR_PATH env) n) \<and>
          st1 = st\<lparr>trace := trace st @ map ReadDir ds @
             [ConsoleLog (Copying n),
              CopyFile (path_join env d n) (path_join env (EXE_DIR_PATH env) n)]\<rparr>)"
      by auto
    then have "filtered_state env st1 \<and> (\<forall>m. e = CanNotFind m \<longrightarrow> m = n)"
      using assms by (auto simp: filtered_state_listing filtered_state_copy)
    with False Inl a show ?thesis by (simp add: populate_falsy)
  next
    case (Inr b)
    obtain p st1 where b: "b = (p, st1)" by (cases b)
    from copy_missing_Inr[of env n st p st1] Inr b obtain ds d fs' where
      "st1 = st\<lparr>trace := trace st @ map ReadDir ds @
              [ConsoleLog (Copying n), CopyFile (path_join env d n) (path_join env (EXE_DIR_PATH env) n)],
            fs := fs', queue := map_delete (queue st) n\<rparr>"
      by auto
    moreover have "filtered_state env
       ((st\<lparr>trace := trace st @ map ReadDir ds @
              [ConsoleLog (Copying n), CopyFile (path_join env d n) (path_join env (EXE_DIR_PATH env) n)]\<rparr>)
         \<lparr>fs := fs'\<rparr>)" (is "filtered_state env ?mid")
      using assms by (intro filtered_state_fs filtered_state_copy)
    then have "filtered_state env (?mid\<lparr>queue := map_delete (queue ?mid) n\<rparr>)"
      by (rule filtered_state_delete)
    ultimately have "filtered_state env st1" by simp
    with False Inr b show ?thesis by (simp add: populate_falsy)
  qed
qed

lemma process_pair_filtered:
  assumes "filtered_state env st" and "INCLUDE_PATTERN env n"
  shows "only_filtered env (process_pair env n filePath st)"
proof (cases "populate env n filePath st")
  case (Inl a)
  obtain e st1 where a: "a = (e, st1)" by (cases a)
  from populate_filtered[OF assms, of filePath] Inl a assms(2) show ?thesis
    by (auto simp: process_pair_def only_filtered_def)
next
  case (Inr b)
  obtain p st1 where b: "b = (p, st1)" by (cases b)
  from populate_filtered[OF assms, of filePath] Inr b have f1: "filtered_state env st1" by simp
  show ?thesis
  proof (cases "scan env p st1")
    case (Inl c)
    obtain e st2 where c: "c = (e, st2)" by (cases c)
    from scan_Inl[of env p st1 e st2] Inl c have "e = ExecError p" "st2 = st1\<lparr>trace := trace st1 @ [Exec p]\<rparr>"
      by simp_all
    with f1 have "only_filtered env (Inl (e, st2))"
      by (simp add: only_filtered_def filtered_state_exec)
    with \<open>populate env n filePath st = Inr b\<close> b Inl c show ?thesis
      by (simp add: process_pair_def)
  next
    case (Inr c)
    obtain ch st2 where c: "c = (ch, st2)" by (cases c)
    from scan_Inr[of env p st1 ch st2] Inr c obtain deps where
      st2: "st2 = st1\<lparr>trace := trace st1 @ [Exec p]\<rparr>"
      and ch: "ch = scan_result (INCLUDE_PATTERN env) deps"
      by auto
    from f1 st2 have "filtered_state env st2" by (simp add: filtered_state_exec)
    then have "filtered_state env (st2\<lparr>queue := enqueue (queue st2) ch\<rparr>)"
      unfolding ch by (rule filtered_state_enqueue)
    then have "only_filtered env (Inr (st2\<lparr>queue := enqueue (queue st2) ch\<rparr>))"
      by (simp add: only_filtered_def)
    with \<open>populate env n filePath st = Inr b\<close> b Inr c show ?thesis
      by (simp add: process_pair_def)
  qed
qed

lemma scan_filtered:
  "scan env p st = Inr (q, st') \<Longrightarrow> map_has q k \<Longrightarrow> INCLUDE_PATTERN env k"
  by (auto dest!: scan_Inr simp: map_has_scan_result)

lemma reachable_filtered:
  "reachable env fs0 r \<Longrightarrow> only_filtered env r"
proof (induction rule: reachable.induct)
  case seed
  let ?init = "\<lparr>queue = [], fs = fs0, trace = []\<rparr>"
  show ?case
  proof (cases "scan env (EXE_PATH env) ?init")
    case (Inl a)
    obtain e st where a: "a = (e, st)" by (cases a)
    from scan_Inl[of env "EXE_PATH env" ?init e st] Inl a
    have "e = ExecError (EXE_PATH env)" "st = ?init\<lparr>trace := trace ?init @ [Exec (EXE_PATH env)]\<rparr>"
      by simp_all
    then have "only_filtered env (Inl (e, st))"
      by (simp add: only_filtered_def filtered_state_def)
    with Inl a show ?thesis by simp
  next
    case (Inr b)
    obtain q st where b: "b = (q, st)" by (cases b)
    from scan_Inr[of env "EXE_PATH env" ?init q st] Inr b
    have st: "st = ?init\<lparr>trace := trace ?init @ [Exec (EXE_PATH env)]\<rparr>" by simp
    have "\<forall>k. map_has q k \<longrightarrow> INCLUDE_PATTERN env k"
      using scan_filtered Inr b by blast
    with st have "only_filtered env (Inr (st\<lparr>queue := q\<rparr>))"
      by (simp add: only_filtered_def filtered_state_def)
    with Inr b show ?thesis by simp
  qed
next
  case (pair st index moduleName filePath)
  from pair.IH have f: "filtered_state env st" by (simp add: only_filtered_def)
  from pair.hyps(2,3) have "map_has (queue st) moduleName" by (rule nth_map_has)
  with f have "INCLUDE_PATTERN env moduleName" by (simp add: filtered_state_def)
  with f show ?case by (rule process_pair_filtered)
qed

text \<open>Every outcome of the for loop, of the while loop and of the script is reachable.\<close>

lemma for_loop_reachable:
  assumes "for_loop env i st = Some r"
  shows "reachable env fs0 (Inr st) \<longrightarrow> reachable env fs0 r"
  using assms
proof (induction env i st r rule: for_loop.raw_induct[rotated 1, consumes 1, case_names step])
  case (step loop env i st r)
  show ?case
  proof
    assume st: "reachable env fs0 (Inr st)"
    show "reachable env fs0 r"
    proof (cases "i < length (queue st)")
      case False
      with step(2) st show ?thesis by simp
    next
      case True
      show ?thesis
      proof (cases "queue st ! i")
        case None
        with step(2) True have "loop env (i + 1) st = Some r" by simp
        from step(1)[OF this] st show ?thesis by simp
      next
        case (Some kv)
        obtain n filePath where kv: "kv = (n, filePath)" by (cases kv)
        from st True Some kv have pp: "reachable env fs0 (process_pair env n filePath st)"
          by (intro reachable.pair) simp_all
        show ?thesis
        proof (cases "process_pair env n filePath st")
          case (Inl x)
          with step(2) True Some kv have "r = Inl x" by simp
          with pp Inl show ?thesis by simp
        next
          case (Inr st1)
          with step(2) True Some kv have "loop env (i + 1) st1 = Some r" by simp
          from step(1)[OF this] pp Inr show ?thesis by simp
        qed
      qed
    qed
  qed
qed

lemma while_loop_reachable:
  assumes "while_loop env st = Some r"
  shows "reachable env fs0 (Inr st) \<longrightarrow> reachable env fs0 r"
  using assms
proof (induction env st r rule: while_loop.raw_induct[rotated 1, consumes 1, case_names step])
  case (step loop env st r)
  show ?case
  proof
    assume st: "reachable env fs0 (Inr st)"
    show "reachable env fs0 r"
    proof (cases "map_size (queue st) \<noteq> 0")
      case False
      with step(2) st show ?thesis by simp
    next
      case True
      with step(2) obtain r1 where r1: "for_loop env 0 st = Some r1"
        and rest: "(case r1 of Inl e \<Rightarrow> Some (Inl e) | Inr st' \<Rightarrow> loop env st') = Some r"
        by (auto split: Option.bind_splits)
      from for_loop_reachable[OF r1] st have reach1: "reachable env fs0 r1" by simp
      show ?thesis
      proof (cases r1)
        case (Inl x)
        with rest reach1 show ?thesis by simp
      next
        case (Inr st1)
        with rest have "loop env st1 = Some r" by simp
        from step(1)[OF this] reach1 Inr show ?thesis by simp
      qed
    qed
  qed
qed

lemma main_reachable:
  assumes "main env fs0 startTime endTime = Some r"
  obtains e st where "r = Inl (e, st)" "reachable env fs0 (Inl (e, st))"
  | st where "reachable env fs0 (Inr st)"
      "r = Inr (st\<lparr>trace := trace st @
             [ConsoleLog (CostTime ((endTime - startTime + 500) div 1000))]\<rparr>)"
proof -
  let ?init = "\<lparr>queue = [], fs = fs0, trace = []\<rparr>"
  note seed = reachable.seed[of env fs0]
  show ?thesis
  proof (cases "scan env (EXE_PATH env) ?init")
    case (Inl a)
    obtain e st where a: "a = (e, st)" by (cases a)
    from assms Inl a have "r = Inl (e, st)" by (simp add: main_def)
    moreover from seed Inl a have "reachable env fs0 (Inl (e, st))" by simp
    ultimately show ?thesis by (rule that(1))
  next
    case (Inr b)
    obtain q st0 where b: "b = (q, st0)" by (cases b)
    from seed Inr b have s: "reachable env fs0 (Inr (st0\<lparr>queue := q\<rparr>))" by simp
    from assms Inr b obtain r1 where r1: "while_loop env (st0\<lparr>queue := q\<rparr>) = Some r1"
      and fin: "(case r1 of Inl e \<Rightarrow> Some (Inl e)
                 | Inr st' \<Rightarrow> Some (Inr (st'\<lparr>trace := trace st' @
                     [ConsoleLog (CostTime ((endTime - startTime + 500) div 1000))]\<rparr>))) = Some r"
      by (auto simp: main_def split: Option.bind_splits)
    from while_loop_reachable[OF r1] s have reach1: "reachable env fs0 r1" by simp
    show ?thesis
    proof (cases r1)
      case (Inl x)
      obtain e st where x: "x = (e, st)" by (cases x)
      from fin Inl x have "r = Inl (e, st)" by simp
      moreover from reach1 Inl x have "reachable env fs0 (Inl (e, st))" by simp
      ultimately show ?thesis by (rule that(1))
    next
      case (Inr st1)
      from reach1 Inr have "reachable env fs0 (Inr st1)" by simp
      moreover from fin Inr have "r = Inr (st1\<lparr>trace := trace st1 @
             [ConsoleLog (CostTime ((endTime - startTime + 500) div 1000))]\<rparr>)" by simp
      ultimately show ?thesis by (rule that(2))
    qed
  qed
qed

section \<open>The properties\<close>

subsection \<open>Rediscovering a removed name\<close>

text \<open>
  C1 as stated fails at the table \<open>diamond\<close>: D is processed and removed first, and the scan
  of A, which needs D, puts D back into the worklist.
\<close>

theorem removed_name_is_added_again:
  "process_pair (demo_env [] diamond) ''vtkD.dll'' (Some ''./vtkD.dll'')
      \<lparr>queue = [Some (''vtkD.dll'', Some ''./vtkD.dll''), Some (''vtkA.dll'', Some ''./vtkA.dll'')],
       fs = [], trace = [Exec ''./QtVtk1.exe'']\<rparr> =
     Inr \<lparr>queue = [None, Some (''vtkA.dll'', Some ''./vtkA.dll'')], fs = [],
          trace = [Exec ''./QtVtk1.exe'', Exec ''./vtkD.dll'']\<rparr> \<and>
   \<not> map_has [None, Some (''vtkA.dll'', Some ''./vtkA.dll'')] ''vtkD.dll'' \<and>
   process_pair (demo_env [] diamond) ''vtkA.dll'' (Some ''./vtkA.dll'')
      \<lparr>queue = [None, Some (''vtkA.dll'', Some ''./vtkA.dll'')], fs = [],
       trace = [Exec ''./QtVtk1.exe'', Exec ''./vtkD.dll'']\<rparr> =
     Inr \<lparr>queue = [None, None, Some (''vtkD.dll'', Some ''./vtkD.dll'')], fs = [],
          trace = [Exec ''./QtVtk1.exe'', Exec ''./vtkD.dll'', Exec ''./vtkA.dll'']\<rparr> \<and>
   map_has [None, None, Some (''vtkD.dll'', Some ''./vtkD.dll'')] ''vtkD.dll''"
  by (simp add: run_defs diamond_def)

text \<open>
  C1, as amended. After an entry has been processed, the worklist holds the names that
  were left in it once the entry was removed together with every filtered dependency the
  tool reported for the rescanned file. A reported name that was still in the worklist
  keeps its one entry unchanged; a reported name that was not, also one removed earlier,
  is added.
\<close>

theorem rediscovery:
  assumes "process_pair env moduleName filePath st = Inr st'"
  shows "\<exists>deps. execSync env (fs st') (rescan_path env moduleName filePath) = Some deps \<and>
           (\<forall>k. map_has (queue st') k \<longleftrightarrow>
                  map_has (map_delete (queue st) moduleName) k \<or>
                  (\<exists>d\<in>set deps. INCLUDE_PATTERN env (ModuleName d) \<and> ModuleName d = k)) \<and>
           (\<forall>k. map_has (map_delete (queue st) moduleName) k \<longrightarrow>
                  filter (\<lambda>e. fst e = k) (map_entries (queue st')) =
                  filter (\<lambda>e. fst e = k) (map_entries (map_delete (queue st) moduleName)))"
proof -
  from assms obtain st1 deps where
    q1: "queue st1 = map_delete (queue st) moduleName"
    and deps: "execSync env (fs st1) (rescan_path env moduleName filePath) = Some deps"
    and st': "st' = st1\<lparr>trace := trace st1 @ [Exec (rescan_path env moduleName filePath)],
               queue := enqueue (queue st1) (scan_result (INCLUDE_PATTERN env) deps)\<rparr>"
    by (rule process_pair_Inr)
  from st' have fs': "fs st' = fs st1" by simp
  from st' q1 have q': "queue st' =
      enqueue (map_delete (queue st) moduleName) (scan_result (INCLUDE_PATTERN env) deps)"
    by simp
  have a: "execSync env (fs st') (rescan_path env moduleName filePath) = Some deps"
    unfolding fs' by (rule deps)
  have b: "\<forall>k. map_has (queue st') k \<longleftrightarrow>
                  map_has (map_delete (queue st) moduleName) k \<or>
                  (\<exists>d\<in>set deps. INCLUDE_PATTERN env (ModuleName d) \<and> ModuleName d = k)"
    unfolding q' by (simp only: map_has_enqueue map_has_scan_result) simp
  have c: "\<forall>k. map_has (map_delete (queue st) moduleName) k \<longrightarrow>
                  filter (\<lambda>e. fst e = k) (map_entries (queue st')) =
                  filter (\<lambda>e. fst e = k) (map_entries (map_delete (queue st) moduleName))"
    unfolding q' by (intro allI impI) (rule enqueue_keeps)
  show ?thesis
    by (rule exI[of _ deps]) (intro conjI a b c)
qed

text \<open>C1 as amended, at the second entry of the table \<open>diamond\<close>.\<close>

theorem rediscovery_witness:
  "process_pair (demo_env [] diamond) ''vtkA.dll'' (Some ''./vtkA.dll'')
      \<lparr>queue = [None, Some (''vtkA.dll'', Some ''./vtkA.dll'')], fs = [],
       trace = [Exec ''./QtVtk1.exe'', Exec ''./vtkD.dll'']\<rparr> =
     Inr \<lparr>queue = [None, None, Some (''vtkD.dll'', Some ''./vtkD.dll'')], fs = [],
          trace = [Exec ''./QtVtk1.exe'', Exec ''./vtkD.dll'', Exec ''./vtkA.dll'']\<rparr> \<and>
   (\<exists>deps. execSync (demo_env [] diamond) [] ''./vtkA.dll'' = Some deps \<and>
      (map_has [None, None, Some (''vtkD.dll'', Some ''./vtkD.dll'')] ''vtkD.dll'' \<longleftrightarrow>
         map_has ([None, None] :: string option jsmap) ''vtkD.dll'' \<or>
         (\<exists>d\<in>set deps. INCLUDE_PATTERN (demo_env [] diamond) (ModuleName d) \<and>
            ModuleName d = ''vtkD.dll'')))"
proof -
  let ?st = "\<lparr>queue = [None, Some (''vtkA.dll'', Some ''./vtkA.dll'')], fs = [],
       trace = [Exec ''./QtVtk1.exe'', Exec ''./vtkD.dll'']\<rparr> :: demo_fs state"
  let ?st' = "\<lparr>queue = [None, None, Some (''vtkD.dll'', Some ''./vtkD.dll'')], fs = [],
          trace = [Exec ''./QtVtk1.exe'', Exec ''./vtkD.dll'', Exec ''./vtkA.dll'']\<rparr> :: demo_fs state"
  have h: "process_pair (demo_env [] diamond) ''vtkA.dll'' (Some ''./vtkA.dll'') ?st = Inr ?st'"
    by (simp add: run_defs diamond_def)
  have p: "rescan_path (demo_env [] diamond) ''vtkA.dll'' (Some ''./vtkA.dll'') = ''./vtkA.dll''"
    by (simp add: rescan_path_def)
  have q: "map_delete (queue ?st) ''vtkA.dll'' = [None, None]" "queue ?st' = [None, None, Some (''vtkD.dll'', Some ''./vtkD.dll'')]"
    "fs ?st' = []"
    by simp_all
  from rediscovery[OF h] obtain deps where
    d: "execSync (demo_env [] diamond) (fs ?st') (rescan_path (demo_env [] diamond) ''vtkA.dll'' (Some ''./vtkA.dll'')) = Some deps"
    and k: "\<forall>k. map_has (queue ?st') k \<longleftrightarrow> map_has (map_delete (queue ?st) ''vtkA.dll'') k \<or>
         (\<exists>d\<in>set deps. INCLUDE_PATTERN (demo_env [] diamond) (ModuleName d) \<and> ModuleName d = k)"
    by (elim exE conjE)
  from d have d': "execSync (demo_env [] diamond) [] ''./vtkA.dll'' = Some deps"
    unfolding p q .
  from k[rule_format, of "''vtkD.dll''"] have k': "map_has [None, None, Some (''vtkD.dll'', Some ''./vtkD.dll'')] ''vtkD.dll'' \<longleftrightarrow>
         map_has ([None, None] :: string option jsmap) ''vtkD.dll'' \<or>
         (\<exists>d\<in>set deps. INCLUDE_PATTERN (demo_env [] diamond) (ModuleName d) \<and>
            ModuleName d = ''vtkD.dll'')"
    unfolding q .
  show ?thesis
    by (intro conjI exI[of _ deps] h d' k')
qed

subsection \<open>How often the tool runs\<close>

text \<open>
  C2 as stated fails at the table \<open>diamond\<close>: D is scanned, then A, whose scan finds D
  again after D has left the worklist, and D is scanned a second time. Two names are in the
  closure, the tool runs four times.
\<close>

theorem shared_dependency_scanned_twice:
  "main (demo_env [] diamond) [] 0 0 =
     Some (Inr \<lparr>queue = [None, None, None], fs = [],
                trace = [Exec ''./QtVtk1.exe'', Exec ''./vtkD.dll'', Exec ''./vtkA.dll'',
                         Exec ''./vtkD.dll'', ConsoleLog (CostTime 0)]\<rparr>) \<and>
   length (filter (\<lambda>ev. ev = Exec ''./vtkD.dll'')
     [Exec ''./QtVtk1.exe'', Exec ''./vtkD.dll'', Exec ''./vtkA.dll'',
      Exec ''./vtkD.dll'', ConsoleLog (CostTime 0)]) = 2"
  by (simp add: loop_defs run_defs diamond_def)

text \<open>
  C2, as amended. The tool is run once for the executable and once for every entry
  inserted into the worklist: a run that ends successfully has made one more scan than the
  worklist has had entries, and none of them is left. A module found again while its entry
  is still in the worklist gets no second entry; one found again after its entry was
  removed gets a new entry and is scanned again.
\<close>

theorem one_scan_per_insertion:
  assumes "main env fs0 startTime endTime = Some (Inr st)"
  shows "length (filter is_Exec (trace st)) = Suc (length (queue st)) \<and> map_size (queue st) = 0"
proof -
  let ?init = "\<lparr>queue = [], fs = fs0, trace = []\<rparr>"
  from assms obtain q st0 where sc: "scan env (EXE_PATH env) ?init = Inr (q, st0)"
    by (auto simp: main_def split: sum.splits)
  from sc obtain kvs where q: "q = map Some kvs"
    and st0: "st0 = ?init\<lparr>trace := trace ?init @ [Exec (EXE_PATH env)]\<rparr>"
    by (rule seed_queue)
  let ?st1 = "st0\<lparr>queue := q\<rparr>"
  from q have q1: "queue ?st1 = replicate 0 None @ map Some kvs" by simp
  from q have "while_loop env ?st1 = for_loop env 0 ?st1"
    by (intro while_is_one_pass[of _ kvs]) simp
  with assms sc obtain st' where loop: "for_loop env 0 ?st1 = Some (Inr st')"
    and st: "st = st'\<lparr>trace := trace st' @
                [ConsoleLog (CostTime ((endTime - startTime + 500) div 1000))]\<rparr>"
    by (auto simp: main_def split: sum.splits Option.bind_splits)
  from for_loop_drains[OF loop] q1 have
    "queue st' = replicate (length (queue st')) None"
    "length (filter is_Exec (trace st')) =
       length (filter is_Exec (trace ?st1)) + (length (queue st') - 0)"
    by simp_all
  moreover from st0 have "length (filter is_Exec (trace ?st1)) = 1" by simp
  moreover from st have "queue st = queue st'"
    "filter is_Exec (trace st) = filter is_Exec (trace st')" by simp_all
  ultimately show ?thesis by (metis map_size_replicate Suc_eq_plus1_left diff_zero)
qed

text \<open>C2 as amended, for the same run: three slots were made, the tool ran four times.\<close>

theorem one_scan_per_insertion_witness:
  "main (demo_env [] diamond) [] 0 0 =
     Some (Inr \<lparr>queue = [None, None, None], fs = [],
                trace = [Exec ''./QtVtk1.exe'', Exec ''./vtkD.dll'', Exec ''./vtkA.dll'',
                         Exec ''./vtkD.dll'', ConsoleLog (CostTime 0)]\<rparr>) \<and>
   length (filter is_Exec [Exec ''./QtVtk1.exe'', Exec ''./vtkD.dll'', Exec ''./vtkA.dll'',
                         Exec ''./vtkD.dll'', ConsoleLog (CostTime 0)]) =
     Suc (length [None, None, None :: (string \<times> string option) option])"
proof -
  have h: "main (demo_env [] diamond) [] 0 0 =
     Some (Inr \<lparr>queue = [None, None, None], fs = [],
                trace = [Exec ''./QtVtk1.exe'', Exec ''./vtkD.dll'', Exec ''./vtkA.dll'',
                         Exec ''./vtkD.dll'', ConsoleLog (CostTime 0)]\<rparr>)"
    by (simp add: loop_defs run_defs diamond_def)
  from one_scan_per_insertion[OF h] h show ?thesis by simp
qed

subsection \<open>What a pass iterates over\<close>

text \<open>
  C3 as stated fails at the table \<open>chain\<close>: the pass begins with A alone in the worklist, B
  is inserted while A is processed, and the same pass goes on to copy and scan B.
\<close>

theorem inserted_entry_same_pass:
  "\<not> map_has [Some (''vtkA.dll'', None)] ''vtkB.dll'' \<and>
   for_loop (demo_env [''sdk''] chain) 0
      \<lparr>queue = [Some (''vtkA.dll'', None)], fs = [''sdk/vtkA.dll'', ''sdk/vtkB.dll''],
       trace = [Exec ''./QtVtk1.exe'']\<rparr> =
     Some (Inr \<lparr>queue = [None, None],
                fs = [''./vtkB.dll'', ''./vtkA.dll'', ''sdk/vtkA.dll'', ''sdk/vtkB.dll''],
                trace = [Exec ''./QtVtk1.exe'',
                         ReadDir ''sdk'', ConsoleLog (Copying ''vtkA.dll''),
                         CopyFile ''sdk/vtkA.dll'' ''./vtkA.dll'', Exec ''./vtkA.dll'',
                         ReadDir ''sdk'', ConsoleLog (Copying ''vtkB.dll''),
                         CopyFile ''sdk/vtkB.dll'' ''./vtkB.dll'', Exec ''./vtkB.dll'']\<rparr>)"
  by (simp add: loop_defs run_defs chain_def)

text \<open>
  C3, as amended. A pass iterates over the worklist as it is, not over a copy taken at
  its start: an entry inserted during the pass is processed in that same pass. So a pass
  that runs to its end leaves no entry at all, however many slots were appended while it
  ran.
\<close>

theorem pass_is_live:
  assumes "for_loop env i st = Some (Inr st')"
    and "queue st = replicate i None @ map Some kvs"
  shows "length (queue st) \<le> length (queue st') \<and> map_size (queue st') = 0"
proof -
  from for_loop_drains[OF assms(1)] assms(2) have
    "queue st' = replicate (length (queue st')) None" "length (queue st) \<le> length (queue st')"
    by simp_all
  then show ?thesis by (metis map_size_replicate)
qed

text \<open>C3 as amended, for the same pass.\<close>

theorem pass_is_live_witness:
  "for_loop (demo_env [''sdk''] chain) 0
      \<lparr>queue = [Some (''vtkA.dll'', None)], fs = [''sdk/vtkA.dll'', ''sdk/vtkB.dll''],
       trace = [Exec ''./QtVtk1.exe'']\<rparr> =
     Some (Inr \<lparr>queue = [None, None],
                fs = [''./vtkB.dll'', ''./vtkA.dll'', ''sdk/vtkA.dll'', ''sdk/vtkB.dll''],
                trace = [Exec ''./QtVtk1.exe'',
                         ReadDir ''sdk'', ConsoleLog (Copying ''vtkA.dll''),
                         CopyFile ''sdk/vtkA.dll'' ''./vtkA.dll'', Exec ''./vtkA.dll'',
                         ReadDir ''sdk'', ConsoleLog (Copying ''vtkB.dll''),
                         CopyFile ''sdk/vtkB.dll'' ''./vtkB.dll'', Exec ''./vtkB.dll'']\<rparr>) \<and>
   length [Some (''vtkA.dll'', None :: string option)] \<le> length [None, None :: (string \<times> string option) option] \<and>
   map_size [None, None :: (string \<times> string option) option] = 0"
proof -
  let ?st = "\<lparr>queue = [Some (''vtkA.dll'', None)], fs = [''sdk/vtkA.dll'', ''sdk/vtkB.dll''],
       trace = [Exec ''./QtVtk1.exe'']\<rparr>"
  let ?st' = "\<lparr>queue = [None, None],
                fs = [''./vtkB.dll'', ''./vtkA.dll'', ''sdk/vtkA.dll'', ''sdk/vtkB.dll''],
                trace = [Exec ''./QtVtk1.exe'',
                         ReadDir ''sdk'', ConsoleLog (Copying ''vtkA.dll''),
                         CopyFile ''sdk/vtkA.dll'' ''./vtkA.dll'', Exec ''./vtkA.dll'',
                         ReadDir ''sdk'', ConsoleLog (Copying ''vtkB.dll''),
                         CopyFile ''sdk/vtkB.dll'' ''./vtkB.dll'', Exec ''./vtkB.dll'']\<rparr>"
  have h1: "for_loop (demo_env [''sdk''] chain) 0 ?st = Some (Inr ?st')"
    by (simp add: loop_defs run_defs chain_def)
  have h2: "queue ?st = replicate 0 None @ map Some [(''vtkA.dll'', None)]" by simp
  from pass_is_live[OF h1 h2] h1 show ?thesis by simp
qed

subsection \<open>Termination\<close>

text \<open>
  C4 as stated fails at the table \<open>cycle\<close>, whose filtered names are the two names A and
  B: A is removed and its scan inserts B, B is removed and its scan inserts A again, and so
  on; the script never returns.
\<close>

theorem cycle_never_returns:
  "main (demo_env [] cycle) [] 0 0 = None"
proof -
  let ?st = "\<lparr>queue = [Some (''vtkA.dll'', Some ''./vtkA.dll'')], fs = [] :: demo_fs,
              trace = [Exec ''./QtVtk1.exe'']\<rparr>"
  have "for_loop (demo_env [] cycle) 0 ?st = None"
  proof (cases "for_loop (demo_env [] cycle) 0 ?st")
    case (Some r)
    from cycle_no_result[OF Some, of "[]"] show ?thesis by simp
  qed simp
  then have "while_loop (demo_env [] cycle) ?st = None"
    by (subst while_loop.simps) (simp add: map_size_def)
  then show ?thesis
    by (simp add: main_def run_defs cycle_def)
qed

text \<open>
  C4, as amended. When the filtered dependency graph has no cycle, the script returns:
  with an exception, or with the worklist empty. The while loop then is a single pass of the
  for loop over the worklist the seed scan made.
\<close>

theorem acyclic_terminates:
  assumes "acyclic env depth"
  shows "(\<exists>r. main env fs0 startTime endTime = Some r \<and>
              (\<forall>st. r = Inr st \<longrightarrow> map_size (queue st) = 0)) \<and>
         (\<forall>q st0. scan env (EXE_PATH env) \<lparr>queue = [], fs = fs0, trace = []\<rparr> = Inr (q, st0) \<longrightarrow>
              while_loop env (st0\<lparr>queue := q\<rparr>) = for_loop env 0 (st0\<lparr>queue := q\<rparr>))"
proof (intro conjI allI impI)
  fix q st0
  assume "scan env (EXE_PATH env) \<lparr>queue = [], fs = fs0, trace = []\<rparr> = Inr (q, st0)"
  then obtain kvs where "q = map Some kvs" by (rule seed_queue)
  then show "while_loop env (st0\<lparr>queue := q\<rparr>) = for_loop env 0 (st0\<lparr>queue := q\<rparr>)"
    by (intro while_is_one_pass[of _ kvs]) simp
next
  let ?init = "\<lparr>queue = [], fs = fs0, trace = []\<rparr>"
  show "\<exists>r. main env fs0 startTime endTime = Some r \<and>
              (\<forall>st. r = Inr st \<longrightarrow> map_size (queue st) = 0)"
  proof (cases "scan env (EXE_PATH env) ?init")
    case (Inl x)
    then have "main env fs0 startTime endTime = Some (Inl x)" by (simp add: main_def)
    then show ?thesis by simp
  next
    case (Inr b)
    obtain q st0 where b: "b = (q, st0)" by (cases b)
    from Inr b obtain kvs where q: "q = map Some kvs" by (auto elim: seed_queue)
    let ?st1 = "st0\<lparr>queue := q\<rparr>"
    from q have q1: "queue ?st1 = replicate 0 None @ map Some kvs" by simp
    from q have one: "while_loop env ?st1 = for_loop env 0 ?st1"
      by (intro while_is_one_pass[of _ kvs]) simp
    from for_loop_returns[OF assms q1] obtain r where r: "for_loop env 0 ?st1 = Some r" by blast
    show ?thesis
    proof (cases r)
      case (Inl x)
      with Inr b one r have "main env fs0 startTime endTime = Some (Inl x)"
        by (simp add: main_def)
      then show ?thesis by simp
    next
      case (Inr st')
      from for_loop_drains[OF r] q1 Inr have "queue st' = replicate (length (queue st')) None"
        by blast
      then have "map_size (queue st') = 0" by (metis map_size_replicate)
      moreover from \<open>scan env (EXE_PATH env) ?init = Inr b\<close> b one r Inr
      have "main env fs0 startTime endTime =
        Some (Inr (st'\<lparr>trace := trace st' @
           [ConsoleLog (CostTime ((endTime - startTime + 500) div 1000))]\<rparr>))"
        by (simp add: main_def)
      ultimately show ?thesis by simp
    qed
  qed
qed

text \<open>C4 as amended, at the table \<open>chain\<close> with two search directories.\<close>

theorem acyclic_terminates_witness:
  "acyclic (demo_env [''old'', ''sdk''] chain) chain_depth \<and>
   (\<exists>r. main (demo_env [''old'', ''sdk''] chain) [''sdk/vtkA.dll''] 0 0 = Some r \<and>
        (\<forall>st. r = Inr st \<longrightarrow> map_size (queue st) = 0))"
proof -
  have h: "acyclic (demo_env [''old'', ''sdk''] chain) chain_depth"
    unfolding acyclic_def
    by (auto simp: demo_env_def chain_def chain_depth_def rescan_path_def vtk_pattern_def
          demo_join_def EXE_DIR_PATH_def split: if_splits)
  from acyclic_terminates[OF h, of "[''sdk/vtkA.dll'']" 0 0] h show ?thesis
    by (intro conjI) (assumption, erule conjunct1)
qed

subsection \<open>A module found nowhere\<close>

text \<open>
  C5. When the iterator is at an entry without a path and no search directory lists a file
  named as the module, the loop stops there with the exception that names the module. The
  state at that moment differs from the one before the entry only by the directory
  listings: no copy was made for the module, the copies made earlier are still in the file
  system, and the entry and those after it are still in the worklist, never processed.
  The while loop and the script end with that same exception (\<open>while_loop_throws\<close>,
  \<open>main_throws\<close>).
\<close>

theorem unresolved_halts:
  assumes "index < length (queue st)"
    and "queue st ! index = Some (moduleName, filePath)"
    and "\<not> truthy filePath"
    and "\<forall>d\<in>set (SEARCH_DIRS env). \<exists>files. readdirSync env (fs st) d = Some files \<and> moduleName \<notin> set files"
  shows "for_loop env index st =
           Some (Inl (CanNotFind moduleName, st\<lparr>trace := trace st @ map ReadDir (SEARCH_DIRS env)\<rparr>))"
proof -
  have "search env moduleName (SEARCH_DIRS env) st =
          Inr (None, st\<lparr>trace := trace st @ map ReadDir (SEARCH_DIRS env)\<rparr>)"
    using assms(4) by (rule search_miss)
  with assms(3) have "process_pair env moduleName filePath st =
      Inl (CanNotFind moduleName, st\<lparr>trace := trace st @ map ReadDir (SEARCH_DIRS env)\<rparr>)"
    by (simp add: process_pair_def populate_falsy copy_missing_def)
  with assms(1,2) show ?thesis
    by (subst for_loop.simps) simp
qed

text \<open>
  C5 in the state the table \<open>chain\<close> leads to once A has been copied: B is in no search
  directory, and the copy of A stays. The script as a whole ends with that same exception
  in that same state.
\<close>

theorem unresolved_halts_witness:
  "readdirSync (demo_env [''old'', ''sdk''] chain) [''./vtkA.dll'', ''sdk/vtkA.dll''] ''old'' = Some [] \<and>
   readdirSync (demo_env [''old'', ''sdk''] chain) [''./vtkA.dll'', ''sdk/vtkA.dll''] ''sdk'' =
     Some [''vtkA.dll''] \<and>
   for_loop (demo_env [''old'', ''sdk''] chain) 1
      \<lparr>queue = [None, Some (''vtkB.dll'', None)], fs = [''./vtkA.dll'', ''sdk/vtkA.dll''],
       trace = [Exec ''./QtVtk1.exe'', ReadDir ''old'', ReadDir ''sdk'',
                ConsoleLog (Copying ''vtkA.dll''), CopyFile ''sdk/vtkA.dll'' ''./vtkA.dll'',
                Exec ''./vtkA.dll'']\<rparr> =
     Some (Inl (CanNotFind ''vtkB.dll'',
       \<lparr>queue = [None, Some (''vtkB.dll'', None)], fs = [''./vtkA.dll'', ''sdk/vtkA.dll''],
        trace = [Exec ''./QtVtk1.exe'', ReadDir ''old'', ReadDir ''sdk'',
                 ConsoleLog (Copying ''vtkA.dll''), CopyFile ''sdk/vtkA.dll'' ''./vtkA.dll'',
                 Exec ''./vtkA.dll'', ReadDir ''old'', ReadDir ''sdk'']\<rparr>)) \<and>
   main (demo_env [''old'', ''sdk''] chain) [''sdk/vtkA.dll''] 0 0 =
     Some (Inl (CanNotFind ''vtkB.dll'',
       \<lparr>queue = [None, Some (''vtkB.dll'', None)], fs = [''./vtkA.dll'', ''sdk/vtkA.dll''],
        trace = [Exec ''./QtVtk1.exe'', ReadDir ''old'', ReadDir ''sdk'',
                 ConsoleLog (Copying ''vtkA.dll''), CopyFile ''sdk/vtkA.dll'' ''./vtkA.dll'',
                 Exec ''./vtkA.dll'', ReadDir ''old'', ReadDir ''sdk'']\<rparr>))"
proof -
  let ?env = "demo_env [''old'', ''sdk''] chain"
  let ?st = "\<lparr>queue = [None, Some (''vtkB.dll'', None)], fs = [''./vtkA.dll'', ''sdk/vtkA.dll''],
       trace = [Exec ''./QtVtk1.exe'', ReadDir ''old'', ReadDir ''sdk'',
                ConsoleLog (Copying ''vtkA.dll''), CopyFile ''sdk/vtkA.dll'' ''./vtkA.dll'',
                Exec ''./vtkA.dll'']\<rparr>"
  have h1: "1 < length (queue ?st)" by simp
  have h2: "queue ?st ! 1 = Some (''vtkB.dll'', None)" by simp
  have h3: "\<not> truthy None" by simp
  have ra: "readdirSync ?env [''./vtkA.dll'', ''sdk/vtkA.dll''] ''old'' = Some []"
    by (simp add: demo_env_def demo_readdir_def)
  have rb: "readdirSync ?env [''./vtkA.dll'', ''sdk/vtkA.dll''] ''sdk'' = Some [''vtkA.dll'']"
    by (simp add: demo_env_def demo_readdir_def)
  have h4: "\<forall>d\<in>set (SEARCH_DIRS ?env). \<exists>files. readdirSync ?env (fs ?st) d = Some files \<and> ''vtkB.dll'' \<notin> set files"
    using ra rb by (simp add: demo_env_def)
  have run: "main ?env [''sdk/vtkA.dll''] 0 0 =
     Some (Inl (CanNotFind ''vtkB.dll'',
       \<lparr>queue = [None, Some (''vtkB.dll'', None)], fs = [''./vtkA.dll'', ''sdk/vtkA.dll''],
        trace = [Exec ''./QtVtk1.exe'', ReadDir ''old'', ReadDir ''sdk'',
                 ConsoleLog (Copying ''vtkA.dll''), CopyFile ''sdk/vtkA.dll'' ''./vtkA.dll'',
                 Exec ''./vtkA.dll'', ReadDir ''old'', ReadDir ''sdk'']\<rparr>))"
    by (simp add: main_def while_loop.simps for_loop.simps map_size_def run_defs chain_def)
  from unresolved_halts[OF h1 h2 h3 h4] ra rb run show ?thesis
    by (simp add: demo_env_def)
qed

subsection \<open>Where a copy comes from\<close>

text \<open>
  C6. A module whose entry has no path is copied from the first search directory, in the
  configured order, whose listing has a file named exactly as the module, and the
  directories after it are not listed.
\<close>

theorem copy_from_first_match:
  assumes "\<not> truthy filePath"
    and "SEARCH_DIRS env = before @ dir # after"
    and "\<forall>d\<in>set before. \<exists>files. readdirSync env (fs st) d = Some files \<and> moduleName \<notin> set files"
    and "readdirSync env (fs st) dir = Some files" and "moduleName \<in> set files"
    and "moduleName \<noteq> []"
    and "copyFileSync env (fs st) (path_join env dir moduleName)
           (path_join env (EXE_DIR_PATH env) moduleName) = Some fs'"
  shows "populate env moduleName filePath st =
           Inr (path_join env (EXE_DIR_PATH env) moduleName,
                st\<lparr>trace := trace st @ map ReadDir before @
                       [ReadDir dir, ConsoleLog (Copying moduleName),
                        CopyFile (path_join env dir moduleName)
                          (path_join env (EXE_DIR_PATH env) moduleName)],
                   fs := fs', queue := map_delete (queue st) moduleName\<rparr>)"
proof -
  have "search env moduleName (SEARCH_DIRS env) st =
          Inr (Some (moduleName, dir), st\<lparr>trace := trace st @ map ReadDir before @ [ReadDir dir]\<rparr>)"
    unfolding assms(2) using assms(3-6) by (rule search_hit)
  with assms(1,7) show ?thesis
    by (simp add: populate_falsy copy_missing_def Let_def)
qed

text \<open>C6 with three search directories, of which the second and the third hold A.\<close>

theorem copy_from_first_match_witness:
  "\<not> truthy None \<and>
   SEARCH_DIRS (demo_env [''old'', ''sdk'', ''new''] chain) = [''old''] @ ''sdk'' # [''new''] \<and>
   readdirSync (demo_env [''old'', ''sdk'', ''new''] chain)
     [''sdk/vtkA.dll'', ''new/vtkA.dll''] ''old'' = Some [] \<and>
   readdirSync (demo_env [''old'', ''sdk'', ''new''] chain)
     [''sdk/vtkA.dll'', ''new/vtkA.dll''] ''sdk'' = Some [''vtkA.dll''] \<and>
   populate (demo_env [''old'', ''sdk'', ''new''] chain) ''vtkA.dll'' None
      \<lparr>queue = [Some (''vtkA.dll'', None)], fs = [''sdk/vtkA.dll'', ''new/vtkA.dll''],
       trace = [Exec ''./QtVtk1.exe'']\<rparr> =
     Inr (''./vtkA.dll'',
          \<lparr>queue = [None], fs = [''./vtkA.dll'', ''sdk/vtkA.dll'', ''new/vtkA.dll''],
           trace = [Exec ''./QtVtk1.exe'', ReadDir ''old'', ReadDir ''sdk'',
                    ConsoleLog (Copying ''vtkA.dll''), CopyFile ''sdk/vtkA.dll'' ''./vtkA.dll'']\<rparr>)"
proof -
  let ?env = "demo_env [''old'', ''sdk'', ''new''] chain"
  let ?st = "\<lparr>queue = [Some (''vtkA.dll'', None)], fs = [''sdk/vtkA.dll'', ''new/vtkA.dll''],
       trace = [Exec ''./QtVtk1.exe'']\<rparr>"
  have h1: "\<not> truthy None" by simp
  have h2: "SEARCH_DIRS ?env = [''old''] @ ''sdk'' # [''new'']" by (simp add: demo_env_def)
  have h3a: "readdirSync ?env [''sdk/vtkA.dll'', ''new/vtkA.dll''] ''old'' = Some []"
    by (simp add: demo_env_def demo_readdir_def)
  have h3: "\<forall>d\<in>set [''old'']. \<exists>files. readdirSync ?env (fs ?st) d = Some files \<and> ''vtkA.dll'' \<notin> set files"
    using h3a by simp
  have h4a: "readdirSync ?env [''sdk/vtkA.dll'', ''new/vtkA.dll''] ''sdk'' = Some [''vtkA.dll'']"
    by (simp add: demo_env_def demo_readdir_def)
  have h4: "readdirSync ?env (fs ?st) ''sdk'' = Some [''vtkA.dll'']" using h4a by simp
  have h5: "''vtkA.dll'' \<in> set [''vtkA.dll'']" by simp
  have h6: "''vtkA.dll'' \<noteq> []" by simp
  have h7: "copyFileSync ?env (fs ?st) (path_join ?env ''sdk'' ''vtkA.dll'')
           (path_join ?env (EXE_DIR_PATH ?env) ''vtkA.dll'')
           = Some [''./vtkA.dll'', ''sdk/vtkA.dll'', ''new/vtkA.dll'']"
    by (simp add: demo_env_def demo_copy_def demo_join_def EXE_DIR_PATH_def)
  from copy_from_first_match[OF h1 h2 h3 h4 h5 h6 h7] h1 h2 h3a h4a show ?thesis
    by (simp add: demo_env_def demo_join_def EXE_DIR_PATH_def)
qed

subsection \<open>The filter\<close>

text \<open>
  C7. What \<open>scan\<close> returns holds only names that pass the pattern. At every moment between
  two pairs, and in the outcome of the script, every name in the worklist passes the
  pattern, every copy announced or made is the copy of a file so named, and so is the
  module an exception reports as not found.
\<close>

theorem filter_correctness:
  "(scan env p st = Inr (q, st') \<longrightarrow> (\<forall>k. map_has q k \<longrightarrow> INCLUDE_PATTERN env k)) \<and>
   (reachable env fs0 r \<longrightarrow> only_filtered env r) \<and>
   (main env fs0 startTime endTime = Some r \<longrightarrow> only_filtered env r)"
proof (intro conjI impI allI)
  fix k assume "scan env p st = Inr (q, st')" "map_has q k"
  then show "INCLUDE_PATTERN env k" by (rule scan_filtered)
next
  assume "reachable env fs0 r"
  then show "only_filtered env r" by (rule reachable_filtered)
next
  assume "main env fs0 startTime endTime = Some r"
  then show "only_filtered env r"
  proof (cases rule: main_reachable)
    case (1 e st)
    from reachable_filtered[OF 1(2)] 1(1) show ?thesis by simp
  next
    case (2 st)
    from reachable_filtered[OF 2(1)] have "filtered_state env st" by (simp add: only_filtered_def)
    then have "filtered_state env (st\<lparr>trace := trace st @
             [ConsoleLog (CostTime ((endTime - startTime + 500) div 1000))]\<rparr>)"
      by (auto simp: filtered_state_def)
    with 2(2) show ?thesis by (simp add: only_filtered_def)
  qed
qed

text \<open>
  C7 at the table \<open>chain\<close> when only A can be found: the Qt library never enters the
  worklist, A is copied, and B is the module reported.
\<close>

theorem filter_correctness_witness:
  "scan (demo_env [''sdk''] chain) ''./QtVtk1.exe'' \<lparr>queue = [], fs = [''sdk/vtkA.dll''], trace = []\<rparr> =
     Inr ([Some (''vtkA.dll'', None)],
          \<lparr>queue = [], fs = [''sdk/vtkA.dll''], trace = [Exec ''./QtVtk1.exe'']\<rparr>) \<and>
   main (demo_env [''sdk''] chain) [''sdk/vtkA.dll''] 0 0 =
     Some (Inl (CanNotFind ''vtkB.dll'',
       \<lparr>queue = [None, Some (''vtkB.dll'', None)], fs = [''./vtkA.dll'', ''sdk/vtkA.dll''],
        trace = [Exec ''./QtVtk1.exe'', ReadDir ''sdk'', ConsoleLog (Copying ''vtkA.dll''),
                 CopyFile ''sdk/vtkA.dll'' ''./vtkA.dll'', Exec ''./vtkA.dll'',
                 ReadDir ''sdk'']\<rparr>)) \<and>
   reachable (demo_env [''sdk''] chain) [''sdk/vtkA.dll'']
     (Inl (CanNotFind ''vtkB.dll'',
       \<lparr>queue = [None, Some (''vtkB.dll'', None)], fs = [''./vtkA.dll'', ''sdk/vtkA.dll''],
        trace = [Exec ''./QtVtk1.exe'', ReadDir ''sdk'', ConsoleLog (Copying ''vtkA.dll''),
                 CopyFile ''sdk/vtkA.dll'' ''./vtkA.dll'', Exec ''./vtkA.dll'',
                 ReadDir ''sdk'']\<rparr>)) \<and>
   only_filtered (demo_env [''sdk''] chain)
     (Inl (CanNotFind ''vtkB.dll'',
       \<lparr>queue = [None, Some (''vtkB.dll'', None)], fs = [''./vtkA.dll'', ''sdk/vtkA.dll''],
        trace = [Exec ''./QtVtk1.exe'', ReadDir ''sdk'', ConsoleLog (Copying ''vtkA.dll''),
                 CopyFile ''sdk/vtkA.dll'' ''./vtkA.dll'', Exec ''./vtkA.dll'',
                 ReadDir ''sdk'']\<rparr>)) \<and>
   map_has [Some (''vtkA.dll'', None :: string option)] ''vtkA.dll'' \<and>
   INCLUDE_PATTERN (demo_env [''sdk''] chain) ''vtkA.dll''"
proof -
  let ?env = "demo_env [''sdk''] chain"
  let ?init = "\<lparr>queue = [], fs = [''sdk/vtkA.dll''], trace = []\<rparr>"
  let ?st0 = "\<lparr>queue = [], fs = [''sdk/vtkA.dll''], trace = [Exec ''./QtVtk1.exe'']\<rparr>"
  let ?r = "Inl (CanNotFind ''vtkB.dll'',
       \<lparr>queue = [None, Some (''vtkB.dll'', None)], fs = [''./vtkA.dll'', ''sdk/vtkA.dll''],
        trace = [Exec ''./QtVtk1.exe'', ReadDir ''sdk'', ConsoleLog (Copying ''vtkA.dll''),
                 CopyFile ''sdk/vtkA.dll'' ''./vtkA.dll'', Exec ''./vtkA.dll'',
                 ReadDir ''sdk'']\<rparr>)"
  have h1: "scan ?env ''./QtVtk1.exe'' ?init = Inr ([Some (''vtkA.dll'', None)], ?st0)"
    by (simp add: run_defs chain_def)
  have h2: "main ?env [''sdk/vtkA.dll''] 0 0 = Some ?r"
    by (simp add: loop_defs run_defs chain_def)
  from h2 have h3: "reachable ?env [''sdk/vtkA.dll''] ?r"
  proof (cases rule: main_reachable)
    case (1 e st)
    then show ?thesis by simp
  next
    case (2 st)
    then show ?thesis by simp
  qed
  note fc = filter_correctness[of ?env "''./QtVtk1.exe''" ?init "[Some (''vtkA.dll'', None)]" ?st0
      "[''sdk/vtkA.dll'']" ?r 0 0]
  have h4: "map_has [Some (''vtkA.dll'', None :: string option)] ''vtkA.dll''" by simp
  note c1 = fc[THEN conjunct1, THEN mp, OF h1, rule_format, OF h4]
  note c2 = fc[THEN conjunct2, THEN conjunct1, THEN mp, OF h3]
  show ?thesis by (intro conjI h1 h2 h3 c2 h4 c1)
qed

subsection \<open>One entry per name\<close>

text \<open>
  C8. The result of \<open>scan\<close> is keyed by module name. When the tool lists a name that passes
  the pattern several times for one file, \<open>d\<close> being the last of them, the result has
  exactly one entry for that name and its path is the path of \<open>d\<close>.
\<close>

theorem scan_last_wins:
  assumes "execSync env (fs st) targetPath = Some (xs @ d # ys)"
    and "INCLUDE_PATTERN env (ModuleName d)"
    and "\<forall>y\<in>set ys. ModuleName y \<noteq> ModuleName d"
  shows "\<exists>result st'. scan env targetPath st = Inr (result, st') \<and>
           filter (\<lambda>e. fst e = ModuleName d) (map_entries result) = [(ModuleName d, Filepath d)] \<and>
           map_get result (ModuleName d) = Some (Filepath d)"
proof -
  let ?result = "scan_result (INCLUDE_PATTERN env) (xs @ d # ys)"
  have one: "filter (\<lambda>e. fst e = ModuleName d) (map_entries ?result) = [(ModuleName d, Filepath d)]"
    using assms(2,3) by (rule scan_result_last_wins)
  then have "map_get ?result (ModuleName d) = Some (Filepath d)"
    by (simp add: map_get_entries)
  with one assms(1) show ?thesis by (simp add: scan_def)
qed

text \<open>C8 at the table \<open>twice\<close>, where A is listed first without and then with a path.\<close>

theorem scan_last_wins_witness:
  "execSync (demo_env [] twice) (fs \<lparr>queue = [], fs = [], trace = []\<rparr>) ''./QtVtk1.exe'' =
     Some ([\<lparr>ModuleName = ''vtkA.dll'', Filepath = None\<rparr>,
            \<lparr>ModuleName = ''Qt5Core.dll'', Filepath = None\<rparr>] @
           \<lparr>ModuleName = ''vtkA.dll'', Filepath = Some ''./vtkA.dll''\<rparr> # []) \<and>
   INCLUDE_PATTERN (demo_env [] twice)
     (ModuleName \<lparr>ModuleName = ''vtkA.dll'', Filepath = Some ''./vtkA.dll''\<rparr>) \<and>
   (\<exists>result st'.
      scan (demo_env [] twice) ''./QtVtk1.exe'' \<lparr>queue = [], fs = [], trace = []\<rparr> = Inr (result, st') \<and>
      filter (\<lambda>e. fst e = ''vtkA.dll'') (map_entries result) = [(''vtkA.dll'', Some ''./vtkA.dll'')] \<and>
      map_get result ''vtkA.dll'' = Some (Some ''./vtkA.dll''))"
proof -
  let ?d = "\<lparr>ModuleName = ''vtkA.dll'', Filepath = Some ''./vtkA.dll''\<rparr>"
  have h1: "execSync (demo_env [] twice) (fs \<lparr>queue = [], fs = [], trace = []\<rparr>) ''./QtVtk1.exe'' =
     Some ([\<lparr>ModuleName = ''vtkA.dll'', Filepath = None\<rparr>,
            \<lparr>ModuleName = ''Qt5Core.dll'', Filepath = None\<rparr>] @ ?d # [])"
    by (simp add: demo_env_def twice_def)
  have h2: "INCLUDE_PATTERN (demo_env [] twice) (ModuleName ?d)"
    by (simp add: demo_env_def vtk_pattern_def)
  have h3: "\<forall>y\<in>set []. ModuleName y \<noteq> ModuleName ?d" by simp
  from scan_last_wins[OF h1 h2 h3] h1 h2 show ?thesis by simp
qed

subsection \<open>Entries with a path\<close>

text \<open>
  C9 as stated fails for a path that is the empty string: it is not \<^verbatim>\<open>null\<close>, and the
  entry is searched for and copied all the same.
\<close>

theorem empty_path_is_copied:
  "scan (demo_env [''sdk''] blank) ''./QtVtk1.exe'' \<lparr>queue = [], fs = [''sdk/vtkA.dll''], trace = []\<rparr> =
     Inr ([Some (''vtkA.dll'', Some [])],
          \<lparr>queue = [], fs = [''sdk/vtkA.dll''], trace = [Exec ''./QtVtk1.exe'']\<rparr>) \<and>
   Some [] \<noteq> (None :: string option) \<and>
   process_pair (demo_env [''sdk''] blank) ''vtkA.dll'' (Some [])
      \<lparr>queue = [Some (''vtkA.dll'', Some [])], fs = [''sdk/vtkA.dll''], trace = [Exec ''./QtVtk1.exe'']\<rparr> =
     Inr \<lparr>queue = [None], fs = [''./vtkA.dll'', ''sdk/vtkA.dll''],
          trace = [Exec ''./QtVtk1.exe'', ReadDir ''sdk'', ConsoleLog (Copying ''vtkA.dll''),
                   CopyFile ''sdk/vtkA.dll'' ''./vtkA.dll'', Exec ''./vtkA.dll'']\<rparr>"
  by (simp add: run_defs blank_def)

text \<open>
  C9, as amended. Processing an entry whose path is truthy, that is neither \<^verbatim>\<open>null\<close> nor
  the empty string, writes nothing to the file system; all it does outside is run the tool
  on that path, whether the scan succeeds or throws.
\<close>

theorem resolved_entry_writes_nothing:
  assumes "filePath = Some p" and "p \<noteq> []"
  shows "fs (state_of (process_pair env moduleName filePath st)) = fs st \<and>
         trace (state_of (process_pair env moduleName filePath st)) = trace st @ [Exec p]"
proof -
  let ?st1 = "st\<lparr>queue := map_delete (queue st) moduleName\<rparr>"
  from assms have pop: "populate env moduleName filePath st = Inr (p, ?st1)"
    by (simp add: populate_def)
  show ?thesis
  proof (cases "scan env p ?st1")
    case (Inl a)
    obtain e st2 where a: "a = (e, st2)" by (cases a)
    from scan_Inl[of env p ?st1 e st2] Inl a pop show ?thesis
      by (simp add: process_pair_def)
  next
    case (Inr b)
    obtain ch st2 where b: "b = (ch, st2)" by (cases b)
    from scan_Inr[of env p ?st1 ch st2] Inr b pop show ?thesis
      by (auto simp: process_pair_def)
  qed
qed

text \<open>C9 as amended, at the first entry of the table \<open>diamond\<close>.\<close>

theorem resolved_entry_writes_nothing_witness:
  "fs (state_of (process_pair (demo_env [''sdk''] diamond) ''vtkD.dll'' (Some ''./vtkD.dll'')
      \<lparr>queue = [Some (''vtkD.dll'', Some ''./vtkD.dll''), Some (''vtkA.dll'', Some ''./vtkA.dll'')],
       fs = [''sdk/vtkD.dll''], trace = [Exec ''./QtVtk1.exe'']\<rparr>)) = [''sdk/vtkD.dll''] \<and>
   trace (state_of (process_pair (demo_env [''sdk''] diamond) ''vtkD.dll'' (Some ''./vtkD.dll'')
      \<lparr>queue = [Some (''vtkD.dll'', Some ''./vtkD.dll''), Some (''vtkA.dll'', Some ''./vtkA.dll'')],
       fs = [''sdk/vtkD.dll''], trace = [Exec ''./QtVtk1.exe'']\<rparr>)) =
     [Exec ''./QtVtk1.exe'', Exec ''./vtkD.dll'']"
proof -
  have h1: "Some ''./vtkD.dll'' = Some ''./vtkD.dll''" by simp
  have h2: "''./vtkD.dll'' \<noteq> []" by simp
  from resolved_entry_writes_nothing[OF h1 h2, of "demo_env [''sdk''] diamond" "''vtkD.dll''"
      "\<lparr>queue = [Some (''vtkD.dll'', Some ''./vtkD.dll''), Some (''vtkA.dll'', Some ''./vtkA.dll'')],
       fs = [''sdk/vtkD.dll''], trace = [Exec ''./QtVtk1.exe'']\<rparr>"]
  show ?thesis by simp
qed

subsection \<open>An empty seed\<close>

text \<open>
  C10. If the seed scan of the executable returns an empty mapping, the script ends
  successfully having run the tool once, copied nothing and printed only the elapsed time:
  the loop body has not run.
\<close>

theorem empty_seed:
  assumes "scan env (EXE_PATH env) \<lparr>queue = [], fs = fs0, trace = []\<rparr> = Inr ([], st)"
  shows "main env fs0 startTime endTime =
           Some (Inr \<lparr>queue = [], fs = fs0,
                      trace = [Exec (EXE_PATH env),
                               ConsoleLog (CostTime ((endTime - startTime + 500) div 1000))]\<rparr>)"
proof -
  from scan_Inr[OF assms] have st: "st = \<lparr>queue = [], fs = fs0, trace = [Exec (EXE_PATH env)]\<rparr>"
    by simp
  have "while_loop env (st\<lparr>queue := []\<rparr>) = Some (Inr (st\<lparr>queue := []\<rparr>))"
    by (subst while_loop.simps) (simp add: map_size_def)
  with assms st show ?thesis by (simp add: main_def)
qed

text \<open>C10 at the table \<open>plain\<close>, whose only import is a Qt library.\<close>

theorem empty_seed_witness:
  "scan (demo_env shipped_SEARCH_DIRS plain) (EXE_PATH (demo_env shipped_SEARCH_DIRS plain))
      \<lparr>queue = [], fs = [''sdk/vtkA.dll''], trace = []\<rparr> =
     Inr ([], \<lparr>queue = [], fs = [''sdk/vtkA.dll''], trace = [Exec ''./QtVtk1.exe'']\<rparr>) \<and>
   main (demo_env shipped_SEARCH_DIRS plain) [''sdk/vtkA.dll''] 1000 3499 =
     Some (Inr \<lparr>queue = [], fs = [''sdk/vtkA.dll''],
                trace = [Exec ''./QtVtk1.exe'', ConsoleLog (CostTime 2)]\<rparr>)"
proof -
  have h: "scan (demo_env shipped_SEARCH_DIRS plain) (EXE_PATH (demo_env shipped_SEARCH_DIRS plain))
      \<lparr>queue = [], fs = [''sdk/vtkA.dll''], trace = []\<rparr> =
     Inr ([], \<lparr>queue = [], fs = [''sdk/vtkA.dll''], trace = [Exec ''./QtVtk1.exe'']\<rparr>)"
    by (simp add: run_defs plain_def)
  from empty_seed[OF h, of 1000 3499] h show ?thesis
    by (simp add: demo_env_def shipped_EXE_PATH_def)
qed

end
